theory Spec2Isabelle
  imports Main
begin

section \<open>Data model (core.ts)\<close>

text \<open>
  JavaScript values are modelled by a payload type \<open>'a\<close> closed under arrays, because
  \<open>all\<close> returns the array of its dependencies' values.
\<close>

datatype 'a val = Atom 'a | Tuple "'a val list"

text \<open>
  Task objects live in a heap (a list of objects); a reference to a Task is its address.
  \<open>Err\<close> carries the reference \<open>errorTask\<close>.
\<close>

type_synonym ref = nat

datatype ('a, 'e) result = Ok (val: "'a val") | Err (error: 'e) (errorTask: ref)

fun is_ok :: "('a, 'e) result \<Rightarrow> bool" where
  "is_ok (Ok v) = True"
| "is_ok (Err e t) = False"

datatype 'r promise = Pending | Resolved 'r

text \<open>
  The Task type. \<open>task_promise\<close>, \<open>task_result\<close> and \<open>task_id\<close> are the fields
  \<open>_promise\<close>, \<open>_result\<close> and \<open>_id\<close>; \<open>None\<close> is \<open>undefined\<close>. A compute
  function is modelled by the result its promise resolves with, as a function of the
  dependency values it is called with: it keeps no state between invocations, it does not
  call \<open>run\<close> itself, and it does not throw. Compute functions that keep state and call
  \<open>run\<close> have an execution model of their own, below.
\<close>

record ('a, 'e) task =
  label :: string
  deps :: "ref list"
  compute :: "'a val list \<Rightarrow> ('a, 'e) result"
  task_promise :: "('a, 'e) result promise option"
  task_result :: "('a, 'e) result option"
  task_id :: nat

definition ok :: "'a val \<Rightarrow> ('a, 'e) result" where
  "ok v = Ok v"

definition err :: "ref \<Rightarrow> 'e \<Rightarrow> ('a, 'e) result" where
  "err t e = Err e t"

text \<open>The helpers object \<open>{ ok, err }\<close> handed to the user's compute function.\<close>

record ('a, 'e) helpers =
  h_ok :: "'a val \<Rightarrow> ('a, 'e) result"
  h_err :: "'e \<Rightarrow> ('a, 'e) result"

text \<open>
  \<open>task(label, deps, compute)\<close> allocates a new object: its address is the next free
  one, its \<open>_id\<close> a fresh symbol (modelled by the allocation index), and its stored compute
  wraps the user's function with helpers whose \<open>err\<close> is bound to the new node.
\<close>

definition task ::
  "string \<Rightarrow> ref list \<Rightarrow> (('a, 'e) helpers \<Rightarrow> 'a val list \<Rightarrow> ('a, 'e) result) \<Rightarrow>
   ('a, 'e) task list \<Rightarrow> ref \<times> ('a, 'e) task list" where
  "task l ds c h =
     (let taskNode = length h in
      (taskNode,
       h @ [\<lparr>label = l, deps = ds,
             compute = (\<lambda>values. c \<lparr>h_ok = ok, h_err = (\<lambda>e. err taskNode e)\<rparr> values),
             task_promise = None, task_result = None, task_id = taskNode\<rparr>]))"

text \<open>\<open>all(id, tasks)\<close> (all.ts).\<close>

definition all ::
  "string \<Rightarrow> ref list \<Rightarrow> ('a, 'e) task list \<Rightarrow> ref \<times> ('a, 'e) task list" where
  "all ident tasks h = task ident tasks (\<lambda>hs results. h_ok hs (Tuple results)) h"

section \<open>Execution model (run.ts)\<close>

text \<open>
  All Task objects are allocated before execution starts: creating a task has no effect on
  the others, so a task created later behaves as one that was there from the beginning and
  is run later.

  An \<open>async\<close> function runs synchronously up to its first \<open>await\<close> and is resumed
  later. The state of the program is the heap of Task objects together with the suspended
  activations: \<open>frames\<close> holds, per task, the suspended \<open>executeTask\<close> activation (waiting
  for the task's compute, called with the given values, or for \<open>Promise.race\<close>), and
  \<open>awaiting\<close> the tasks whose starting \<open>run\<close> activation is suspended at
  \<open>await task._promise\<close>. \<open>calls\<close> records every invocation of a compute function
  (task and argument list), oldest first.
\<close>

datatype 'a frame = AwaitCompute "'a val list" | AwaitRace

record ('a, 'e) state =
  heap :: "('a, 'e) task list"
  frames :: "ref \<rightharpoonup> 'a frame"
  awaiting :: "ref set"
  calls :: "(ref \<times> 'a val list) list"

text \<open>
  The loop of lines 57-61 of run.ts: the first dependency, in declaration order, whose
  \<open>_result\<close> is set and is not ok.
\<close>

fun first_cached_err :: "('a, 'e) task list \<Rightarrow> ref list \<Rightarrow> ('a, 'e) result option" where
  "first_cached_err h [] = None"
| "first_cached_err h (dep # ds) =
     (case task_result (h ! dep) of
        Some (Err e t) \<Rightarrow> Some (Err e t)
      | _ \<Rightarrow> first_cached_err h ds)"

text \<open>\<open>deps.map(run)\<close>: the calls are made in order, each on the state the previous left.\<close>

fun sequence :: "('x \<Rightarrow> 's \<Rightarrow> 's option) \<Rightarrow> 'x list \<Rightarrow> 's \<Rightarrow> 's option" where
  "sequence f [] s = Some s"
| "sequence f (x # xs) s = (case f x s of None \<Rightarrow> None | Some s' \<Rightarrow> sequence f xs s')"

text \<open>
  The synchronous part of \<open>executeTask(task)\<close>, given the function \<open>run\<close> it calls on the
  dependencies: the state of the promise it returns, and the new program state.
\<close>

definition executeTask_sync ::
  "(ref \<Rightarrow> ('a, 'e) state \<Rightarrow> ('a, 'e) state option) \<Rightarrow> ref \<Rightarrow> ('a, 'e) state \<Rightarrow>
   (('a, 'e) result promise \<times> ('a, 'e) state) option" where
  "executeTask_sync run t s =
     (if deps (heap s ! t) = [] then
        Some (Pending, s\<lparr>frames := (frames s)(t \<mapsto> AwaitCompute []),
                          calls := calls s @ [(t, [])]\<rparr>)
      else
        (case first_cached_err (heap s) (deps (heap s ! t)) of
           Some r \<Rightarrow> Some (Resolved r, s)
         | None \<Rightarrow>
             (case sequence run (deps (heap s ! t)) s of
                None \<Rightarrow> None
              | Some s' \<Rightarrow> Some (Pending, s'\<lparr>frames := (frames s')(t \<mapsto> AwaitRace)\<rparr>))))"

text \<open>
  The synchronous part of \<open>run(task)\<close>. The recursion through the dependencies is bounded
  by the depth of the call stack, the first argument; \<open>None\<close> is a call that does not
  return (the stack is exhausted, as on a cyclic graph). Line 37 assigns \<open>_promise\<close> only
  when \<open>executeTask\<close> has returned, after a leaf's compute has been invoked (line 53);
  since the compute functions of this model call nothing, no call of \<open>run\<close> falls in
  between, and a task has one promise and one suspended activation of each function.
\<close>

primrec run_sync :: "nat \<Rightarrow> ref \<Rightarrow> ('a, 'e) state \<Rightarrow> ('a, 'e) state option" where
  "run_sync 0 t s = None"
| "run_sync (Suc n) t s =
     (if length (heap s) \<le> t then None
      else if task_result (heap s ! t) \<noteq> None then Some s
      else if task_promise (heap s ! t) \<noteq> None then Some s
      else
        (case executeTask_sync (run_sync n) t s of
           None \<Rightarrow> None
         | Some (p, s') \<Rightarrow>
             Some (s'\<lparr>heap := (heap s')[t := (heap s' ! t)\<lparr>task_promise := Some p\<rparr>],
                      awaiting := insert t (awaiting s')\<rparr>)))"

text \<open>
  What the promise returned by \<open>run(d)\<close> resolves with, once it does: the cached
  \<open>_result\<close>, or else the value of \<open>_promise\<close>.
\<close>

definition outcome :: "('a, 'e) state \<Rightarrow> ref \<Rightarrow> ('a, 'e) result option" where
  "outcome s d =
     (case task_result (heap s ! d) of
        Some r \<Rightarrow> Some r
      | None \<Rightarrow> (case task_promise (heap s ! d) of Some (Resolved r) \<Rightarrow> Some r | _ \<Rightarrow> None))"

fun all_ok :: "('a, 'e) result option list \<Rightarrow> 'a val list option" where
  "all_ok [] = Some []"
| "all_ok (Some (Ok v) # rs) = (case all_ok rs of None \<Rightarrow> None | Some vs \<Rightarrow> Some (v # vs))"
| "all_ok (_ # rs) = None"

text \<open>
  The scheduler's choices. \<open>Run t\<close>: some caller invokes \<open>run(t)\<close>. \<open>ComputeDone t\<close>: the
  promise of \<open>t\<close>'s compute resolves and \<open>executeTask\<close> returns its result.
  \<open>RaceError t d\<close>: the contestant of dependency \<open>d\<close> wins the race of \<open>t\<close> with \<open>d\<close>'s
  error, which \<open>executeTask\<close> returns. \<open>RaceSuccess t\<close>: every dependency of \<open>t\<close> has
  resolved ok, and \<open>t\<close>'s compute is invoked with their values in declaration order.
  \<open>Settle t\<close>: the \<open>run\<close> activation that started \<open>t\<close> resumes after
  \<open>await task._promise\<close> and writes \<open>_result\<close>.
  A contestant that saw its own dependency succeed resolves only after \<open>Promise.all\<close>,
  hence after the contestant of any failed dependency: success wins only when every
  dependency succeeded. Which of several failed dependencies wins is left to the scheduler.
\<close>

datatype event = Run ref | ComputeDone ref | RaceError ref ref | RaceSuccess ref | Settle ref

definition resolve :: "ref \<Rightarrow> ('a, 'e) result \<Rightarrow> ('a, 'e) state \<Rightarrow> ('a, 'e) state" where
  "resolve t r s =
     s\<lparr>heap := (heap s)[t := (heap s ! t)\<lparr>task_promise := Some (Resolved r)\<rparr>],
       frames := (frames s)(t := None)\<rparr>"

fun step :: "event \<Rightarrow> ('a, 'e) state \<Rightarrow> ('a, 'e) state option" where
  "step (Run t) s = run_sync (length (heap s)) t s"
| "step (ComputeDone t) s =
     (case frames s t of
        Some (AwaitCompute args) \<Rightarrow> Some (resolve t (compute (heap s ! t) args) s)
      | _ \<Rightarrow> None)"
| "step (RaceError t d) s =
     (case frames s t of
        Some AwaitRace \<Rightarrow>
          (if d \<in> set (deps (heap s ! t)) then
             (case outcome s d of
                Some (Err e a) \<Rightarrow> Some (resolve t (Err e a) s)
              | _ \<Rightarrow> None)
           else None)
      | _ \<Rightarrow> None)"
| "step (RaceSuccess t) s =
     (case frames s t of
        Some AwaitRace \<Rightarrow>
          (case all_ok (map (outcome s) (deps (heap s ! t))) of
             Some depValues \<Rightarrow>
               Some (s\<lparr>frames := (frames s)(t \<mapsto> AwaitCompute depValues),
                       calls := calls s @ [(t, depValues)]\<rparr>)
           | None \<Rightarrow> None)
      | _ \<Rightarrow> None)"
| "step (Settle t) s =
     (if t \<in> awaiting s then
        (case task_promise (heap s ! t) of
           Some (Resolved r) \<Rightarrow>
             Some (s\<lparr>heap := (heap s)[t := (heap s ! t)\<lparr>task_result := Some r\<rparr>],
                     awaiting := awaiting s - {t}\<rparr>)
         | _ \<Rightarrow> None)
      else None)"

fun exec :: "event list \<Rightarrow> ('a, 'e) state \<Rightarrow> ('a, 'e) state option" where
  "exec [] s = Some s"
| "exec (ev # evs) s = (case step ev s of None \<Rightarrow> None | Some s' \<Rightarrow> exec evs s')"

definition init :: "('a, 'e) task list \<Rightarrow> ('a, 'e) state" where
  "init h = \<lparr>heap = h, frames = Map.empty, awaiting = {}, calls = []\<rparr>"

text \<open>The compute invocations of one task.\<close>

definition calls_of :: "('a, 'e) state \<Rightarrow> ref \<Rightarrow> (ref \<times> 'a val list) list" where
  "calls_of s t = filter (\<lambda>c. fst c = t) (calls s)"

section \<open>Compute functions that call run (run.ts)\<close>

text \<open>
  A compute function is user code. It is an \<open>async\<close> function: an invocation runs
  synchronously up to its first \<open>await\<close>, and there it may call \<open>run\<close> on any task it
  holds (a variable of its closure, say); and it may keep state from one invocation to the
  next. This section models run.ts for such functions: the second execution model, the
  one above being the first.

  \<open>r_compute k values\<close> is the invocation number \<open>k\<close> of the node's stored compute
  (\<open>k\<close> counts the earlier invocations of the same node) with the dependency values
  \<open>values\<close>: the tasks on which it calls \<open>run\<close> before its first \<open>await\<close>, in order,
  and the result its promise resolves with, later. \<open>r_promise\<close> refers to a promise
  object, by the number of the execution (see below) that made it.
\<close>

record ('a, 'e) rtask =
  r_label :: string
  r_deps :: "ref list"
  r_compute :: "nat \<Rightarrow> 'a val list \<Rightarrow> ref list \<times> ('a, 'e) result"
  r_promise :: "nat option"
  r_result :: "('a, 'e) result option"
  r_id :: nat

text \<open>\<open>task(label, deps, compute)\<close> for such a user function (core.ts, as \<open>task\<close> above).\<close>

definition task_re ::
  "string \<Rightarrow> ref list \<Rightarrow>
   (('a, 'e) helpers \<Rightarrow> nat \<Rightarrow> 'a val list \<Rightarrow> ref list \<times> ('a, 'e) result) \<Rightarrow>
   ('a, 'e) rtask list \<Rightarrow> ref \<times> ('a, 'e) rtask list" where
  "task_re l ds c h =
     (let taskNode = length h in
      (taskNode,
       h @ [\<lparr>r_label = l, r_deps = ds,
             r_compute = (\<lambda>k values. c \<lparr>h_ok = ok, h_err = (\<lambda>e. err taskNode e)\<rparr> k values),
             r_promise = None, r_result = None, r_id = taskNode\<rparr>]))"

text \<open>
  A user function of the first model, as one of the second: it calls no \<open>run\<close>, and
  every invocation resolves with what the function gives for the values.
\<close>

definition quiet ::
  "(('a, 'e) helpers \<Rightarrow> 'a val list \<Rightarrow> ('a, 'e) result) \<Rightarrow>
   ('a, 'e) helpers \<Rightarrow> nat \<Rightarrow> 'a val list \<Rightarrow> ref list \<times> ('a, 'e) result" where
  "quiet c hs k vs = ([], c hs vs)"

text \<open>
  What the promise returned by a call \<open>run(dep)\<close> resolves with: the \<open>_result\<close> the call
  found cached (line 28), or else what the promise of \<open>executeTask\<close> resolves with that
  the call found in \<open>_promise\<close> (line 33) or stored there itself (lines 37 and 38).
\<close>

datatype ('a, 'e) source = Cached "('a, 'e) result" | Inflight nat

text \<open>
  A call of \<open>run\<close> that passes both fast paths starts an execution of its task: it calls
  \<open>executeTask\<close>, stores the promise that returns in \<open>_promise\<close> (line 37) and awaits it
  (line 38). \<open>status\<close> is the state of that promise and of the \<open>executeTask\<close> activation
  behind it: suspended until the promise of the task's compute resolves, with the given
  result (lines 53 and 88); suspended at \<open>Promise.race\<close> over the given \<open>depPromises\<close>
  (line 67); or returned, the promise resolved. \<open>resumed\<close> says whether the \<open>run\<close>
  activation has resumed from line 38 and written \<open>_result\<close>. The executions are numbered
  in the order in which line 37 stores their promises.
\<close>

datatype ('a, 'e) execution =
  Computing "('a, 'e) result" | Racing "('a, 'e) source list" | Returned "('a, 'e) result"

record ('a, 'e) flight =
  target :: ref
  status :: "('a, 'e) execution"
  resumed :: bool

record ('a, 'e) rstate =
  rheap :: "('a, 'e) rtask list"
  flights :: "('a, 'e) flight list"
  rcalls :: "(ref \<times> 'a val list) list"

definition calls_of_re :: "('a, 'e) rstate \<Rightarrow> ref \<Rightarrow> (ref \<times> 'a val list) list" where
  "calls_of_re s t = filter (\<lambda>c. fst c = t) (rcalls s)"

text \<open>The loop of lines 57-61, as \<open>first_cached_err\<close> above.\<close>

fun first_cached_err_re :: "('a, 'e) rtask list \<Rightarrow> ref list \<Rightarrow> ('a, 'e) result option" where
  "first_cached_err_re h [] = None"
| "first_cached_err_re h (dep # ds) =
     (case r_result (h ! dep) of
        Some (Err e t) \<Rightarrow> Some (Err e t)
      | _ \<Rightarrow> first_cached_err_re h ds)"

text \<open>
  \<open>deps.map(run)\<close>, keeping what the calls return: they are made in order, each on the
  state the previous one left.
\<close>

fun collect :: "('x \<Rightarrow> 's \<Rightarrow> ('y \<times> 's) option) \<Rightarrow> 'x list \<Rightarrow> 's \<Rightarrow> ('y list \<times> 's) option" where
  "collect f [] s = Some ([], s)"
| "collect f (x # xs) s =
     (case f x s of
        None \<Rightarrow> None
      | Some (y, s') \<Rightarrow>
          (case collect f xs s' of None \<Rightarrow> None | Some (ys, s'') \<Rightarrow> Some (y # ys, s'')))"

text \<open>
  \<open>task.compute(values)\<close> (lines 53 and 88): the invocation is recorded, the user's
  function makes its calls of \<open>run\<close>, whose promises it may drop, and \<open>executeTask\<close>
  suspends until the promise of the compute resolves.
\<close>

definition invoke ::
  "(ref \<Rightarrow> ('a, 'e) rstate \<Rightarrow> (('a, 'e) source \<times> ('a, 'e) rstate) option) \<Rightarrow> ref \<Rightarrow>
   'a val list \<Rightarrow> ('a, 'e) rstate \<Rightarrow> (('a, 'e) execution \<times> ('a, 'e) rstate) option" where
  "invoke run t values s =
     (case r_compute (rheap s ! t) (length (calls_of_re s t)) values of
        (called, r) \<Rightarrow>
          (case collect run called (s\<lparr>rcalls := rcalls s @ [(t, values)]\<rparr>) of
             None \<Rightarrow> None
           | Some (ps, s') \<Rightarrow> Some (Computing r, s')))"

text \<open>The synchronous part of \<open>executeTask(task)\<close>, up to its first \<open>await\<close> or its return.\<close>

definition executeTask_re ::
  "(ref \<Rightarrow> ('a, 'e) rstate \<Rightarrow> (('a, 'e) source \<times> ('a, 'e) rstate) option) \<Rightarrow> ref \<Rightarrow>
   ('a, 'e) rstate \<Rightarrow> (('a, 'e) execution \<times> ('a, 'e) rstate) option" where
  "executeTask_re run t s =
     (if r_deps (rheap s ! t) = [] then invoke run t [] s
      else
        (case first_cached_err_re (rheap s) (r_deps (rheap s ! t)) of
           Some r \<Rightarrow> Some (Returned r, s)
         | None \<Rightarrow>
             (case collect run (r_deps (rheap s ! t)) s of
                None \<Rightarrow> None
              | Some (depPromises, s') \<Rightarrow> Some (Racing depPromises, s'))))"

text \<open>
  The synchronous part of \<open>run(task)\<close>, with what its promise will resolve with. The
  first argument bounds the depth of the call stack, \<open>None\<close> is a call that exhausts it.
  \<open>_promise\<close> is assigned when \<open>executeTask\<close> has returned (line 37): a call of \<open>run\<close>
  on the same task made in between, from a compute function, finds neither \<open>_result\<close> nor
  \<open>_promise\<close> and starts an execution of its own.
\<close>

primrec run_re ::
  "nat \<Rightarrow> ref \<Rightarrow> ('a, 'e) rstate \<Rightarrow> (('a, 'e) source \<times> ('a, 'e) rstate) option" where
  "run_re 0 t s = None"
| "run_re (Suc n) t s =
     (if length (rheap s) \<le> t then None
      else
        (case r_result (rheap s ! t) of
           Some r \<Rightarrow> Some (Cached r, s)
         | None \<Rightarrow>
             (case r_promise (rheap s ! t) of
                Some p \<Rightarrow> Some (Inflight p, s)
              | None \<Rightarrow>
                  (case executeTask_re (run_re n) t s of
                     None \<Rightarrow> None
                   | Some (e, s') \<Rightarrow>
                       Some (Inflight (length (flights s')),
                             s'\<lparr>rheap := (rheap s')[t := (rheap s' ! t)
                                           \<lparr>r_promise := Some (length (flights s'))\<rparr>],
                                flights := flights s' @
                                           [\<lparr>target = t, status = e, resumed = False\<rparr>]\<rparr>)))))"

definition value_of :: "('a, 'e) rstate \<Rightarrow> ('a, 'e) source \<Rightarrow> ('a, 'e) result option" where
  "value_of s src =
     (case src of
        Cached r \<Rightarrow> Some r
      | Inflight p \<Rightarrow> (case status (flights s ! p) of Returned r \<Rightarrow> Some r | _ \<Rightarrow> None))"

text \<open>
  The scheduler's choices, as above, now by execution. \<open>Call t\<close>: some caller invokes
  \<open>run(t)\<close>. \<open>Computed p\<close>: the promise of the compute that execution \<open>p\<close> waits for
  resolves, and \<open>executeTask\<close> returns its result. \<open>Failed p i\<close>: the contestant of the
  dependency number \<open>i\<close> wins the race of \<open>p\<close> with an error, which \<open>executeTask\<close>
  returns. \<open>Succeeded p\<close>: the \<open>depPromises\<close> of \<open>p\<close> have all resolved ok, and the
  compute of the task is invoked with their values (line 88). \<open>Resumed p\<close>: the \<open>run\<close>
  activation of \<open>p\<close> resumes from line 38 and writes \<open>_result\<close> (line 41).
\<close>

datatype revent = Call ref | Computed nat | Failed nat nat | Succeeded nat | Resumed nat

definition return_re :: "nat \<Rightarrow> ('a, 'e) result \<Rightarrow> ('a, 'e) rstate \<Rightarrow> ('a, 'e) rstate" where
  "return_re p r s = s\<lparr>flights := (flights s)[p := (flights s ! p)\<lparr>status := Returned r\<rparr>]\<rparr>"

fun step_re :: "nat \<Rightarrow> revent \<Rightarrow> ('a, 'e) rstate \<Rightarrow> ('a, 'e) rstate option" where
  "step_re n (Call t) s = map_option snd (run_re n t s)"
| "step_re n (Computed p) s =
     (if length (flights s) \<le> p then None
      else
        (case status (flights s ! p) of
           Computing r \<Rightarrow> Some (return_re p r s)
         | _ \<Rightarrow> None))"
| "step_re n (Failed p i) s =
     (if length (flights s) \<le> p then None
      else
        (case status (flights s ! p) of
           Racing depPromises \<Rightarrow>
             (if i < length depPromises then
                (case value_of s (depPromises ! i) of
                   Some (Err e a) \<Rightarrow> Some (return_re p (Err e a) s)
                 | _ \<Rightarrow> None)
              else None)
         | _ \<Rightarrow> None))"
| "step_re n (Succeeded p) s =
     (if length (flights s) \<le> p then None
      else
        (case status (flights s ! p) of
           Racing depPromises \<Rightarrow>
             (case all_ok (map (value_of s) depPromises) of
                Some depValues \<Rightarrow>
                  (case invoke (run_re n) (target (flights s ! p)) depValues s of
                     None \<Rightarrow> None
                   | Some (e, s') \<Rightarrow>
                       Some (s'\<lparr>flights := (flights s')[p := (flights s' ! p)\<lparr>status := e\<rparr>]\<rparr>))
              | None \<Rightarrow> None)
         | _ \<Rightarrow> None))"
| "step_re n (Resumed p) s =
     (if length (flights s) \<le> p \<or> resumed (flights s ! p) then None
      else
        (case status (flights s ! p) of
           Returned r \<Rightarrow>
             Some (s\<lparr>rheap := (rheap s)[target (flights s ! p) :=
                       (rheap s ! target (flights s ! p))\<lparr>r_result := Some r\<rparr>],
                     flights := (flights s)[p := (flights s ! p)\<lparr>resumed := True\<rparr>]\<rparr>)
         | _ \<Rightarrow> None))"

fun exec_re :: "nat \<Rightarrow> revent list \<Rightarrow> ('a, 'e) rstate \<Rightarrow> ('a, 'e) rstate option" where
  "exec_re n [] s = Some s"
| "exec_re n (ev # evs) s = (case step_re n ev s of None \<Rightarrow> None | Some s' \<Rightarrow> exec_re n evs s')"

definition init_re :: "('a, 'e) rtask list \<Rightarrow> ('a, 'e) rstate" where
  "init_re h = \<lparr>rheap = h, flights = [], rcalls = []\<rparr>"

section \<open>Graph introspection (trace.ts)\<close>

text \<open>
  \<open>traverse\<close> of \<open>getTrace\<close>, with the closure's variables \<open>visited\<close> and \<open>path\<close>
  passed as state. A visited node returns at once (line 25). The first argument bounds the
  number of unvisited nodes on the call stack: no node is entered twice, so the number of
  tasks is enough, on cyclic graphs too.
\<close>

primrec traverse ::
  "nat \<Rightarrow> ('a, 'e) task list \<Rightarrow> ref \<Rightarrow> nat set \<times> string list \<Rightarrow> (nat set \<times> string list) option" where
  "traverse 0 h t vp = (if task_id (h ! t) \<in> fst vp then Some vp else None)"
| "traverse (Suc n) h t vp =
     (if task_id (h ! t) \<in> fst vp then Some vp
      else
        (case sequence (traverse n h) (deps (h ! t)) (insert (task_id (h ! t)) (fst vp), snd vp) of
           None \<Rightarrow> None
         | Some vp' \<Rightarrow> Some (fst vp', snd vp' @ [label (h ! t)])))"

definition getTrace :: "('a, 'e) task list \<Rightarrow> ref \<Rightarrow> string list option" where
  "getTrace h t = map_option snd (traverse (length h) h t ({}, []))"

section \<open>Well-formed graphs\<close>

text \<open>
  Heaps built by \<open>task\<close>: the dependencies of a task exist before it does, and its
  \<open>_id\<close> is its own. Such a graph is acyclic. A fresh heap has empty caches.
\<close>

definition wf_heap :: "('a, 'e) task list \<Rightarrow> bool" where
  "wf_heap h = (\<forall>i < length h. (\<forall>d \<in> set (deps (h ! i)). d < i) \<and> task_id (h ! i) = i)"

text \<open>A closed heap: every dependency is a task of the heap. It may hold cycles.\<close>

definition closed :: "('a, 'e) task list \<Rightarrow> bool" where
  "closed h = (\<forall>i < length h. \<forall>d \<in> set (deps (h ! i)). d < length h)"

definition fresh :: "('a, 'e) task list \<Rightarrow> bool" where
  "fresh h = (\<forall>tk \<in> set h. task_promise tk = None \<and> task_result tk = None)"

text \<open>\<open>reaches h t a\<close>: \<open>a\<close> is \<open>t\<close> or one of its direct or transitive dependencies.\<close>

inductive reaches :: "('a, 'e) task list \<Rightarrow> ref \<Rightarrow> ref \<Rightarrow> bool" for h where
  self: "reaches h t t"
| dep: "d \<in> set (deps (h ! t)) \<Longrightarrow> reaches h d a \<Longrightarrow> reaches h t a"

code_pred reaches .


definition uses_helper :: "(('a, 'e) helpers \<Rightarrow> 'a val list \<Rightarrow> ('a, 'e) result) \<Rightarrow> bool" where
  "uses_helper c = (\<forall>n vs e t. c \<lparr>h_ok = ok, h_err = err n\<rparr> vs = Err e t \<longrightarrow> t = n)"

section \<open>The invariant of execution\<close>

definition started :: "('a, 'e) state \<Rightarrow> ref \<Rightarrow> bool" where
  "started s d = (task_promise (heap s ! d) \<noteq> None)"

text \<open>The dependencies of \<open>t\<close> have all resolved ok, with the values \<open>args\<close>, in order.\<close>

definition deps_resolved :: "('a, 'e) state \<Rightarrow> ref \<Rightarrow> 'a val list \<Rightarrow> bool" where
  "deps_resolved s t args =
     (map (outcome s) (deps (heap s ! t)) = map (\<lambda>v. Some (Ok v)) args)"

text \<open>
  Where the value \<open>r\<close> of \<open>t\<close>'s promise comes from: \<open>t\<close>'s compute, invoked once with the
  values of its dependencies, or else the error of one of its dependencies, forwarded.
\<close>

definition provenance :: "('a, 'e) state \<Rightarrow> ref \<Rightarrow> ('a, 'e) result \<Rightarrow> bool" where
  "provenance s t r =
     ((\<exists>args. calls_of s t = [(t, args)] \<and> r = compute (heap s ! t) args \<and> deps_resolved s t args)
      \<or> (calls_of s t = [] \<and> \<not> is_ok r \<and> (\<exists>d \<in> set (deps (heap s ! t)). outcome s d = Some r)))"

definition node_ok :: "('a, 'e) state \<Rightarrow> ref \<Rightarrow> bool" where
  "node_ok s t =
     (case task_promise (heap s ! t) of
        None \<Rightarrow>
          task_result (heap s ! t) = None \<and> frames s t = None \<and> t \<notin> awaiting s \<and> calls_of s t = []
      | Some Pending \<Rightarrow>
          task_result (heap s ! t) = None \<and> t \<in> awaiting s \<and>
          (case frames s t of
             None \<Rightarrow> False
           | Some AwaitRace \<Rightarrow>
               calls_of s t = [] \<and> deps (heap s ! t) \<noteq> [] \<and>
               (\<forall>d \<in> set (deps (heap s ! t)). started s d)
           | Some (AwaitCompute args) \<Rightarrow> calls_of s t = [(t, args)] \<and> deps_resolved s t args)
      | Some (Resolved r) \<Rightarrow>
          frames s t = None \<and>
          (if t \<in> awaiting s then task_result (heap s ! t) = None
           else task_result (heap s ! t) = Some r) \<and>
          provenance s t r)"

definition invariant :: "('a, 'e) state \<Rightarrow> bool" where
  "invariant s = (wf_heap (heap s) \<and> (\<forall>t < length (heap s). node_ok s t))"

text \<open>The graph itself: the heap without the caches.\<close>

definition graph_of :: "('a, 'e) task list \<Rightarrow> ('a, 'e) task list" where
  "graph_of h = map (\<lambda>tk. tk\<lparr>task_promise := None, task_result := None\<rparr>) h"

text \<open>What execution never undoes.\<close>

definition extends :: "('a, 'e) state \<Rightarrow> ('a, 'e) state \<Rightarrow> bool" where
  "extends s s' =
     (graph_of (heap s') = graph_of (heap s) \<and>
      (\<forall>d. started s d \<longrightarrow> started s' d) \<and>
      (\<forall>d r. outcome s d = Some r \<longrightarrow> outcome s' d = Some r) \<and>
      (\<forall>d r. task_result (heap s ! d) = Some r \<longrightarrow> task_result (heap s' ! d) = Some r) \<and>
      (\<exists>cs. calls s' = calls s @ cs))"

definition view ::
  "('a, 'e) state \<Rightarrow> ref \<Rightarrow>
   ('a, 'e) result promise option \<times> ('a, 'e) result option \<times> 'a frame option \<times> bool \<times>
   (ref \<times> 'a val list) list" where
  "view s t =
     (task_promise (heap s ! t), task_result (heap s ! t), frames s t, t \<in> awaiting s, calls_of s t)"

text \<open>The task an event resumes or starts.\<close>

fun node_of :: "event \<Rightarrow> ref" where
  "node_of (Run t) = t"
| "node_of (ComputeDone t) = t"
| "node_of (RaceError t d) = t"
| "node_of (RaceSuccess t) = t"
| "node_of (Settle t) = t"

section \<open>The relation between the two execution models\<close>

text \<open>
  A graph of the first model, as the second model sees it: the compute functions call
  nothing, and their result depends on their arguments only.
\<close>

definition embed :: "('a, 'e) task list \<Rightarrow> ('a, 'e) rtask list" where
  "embed h =
     map (\<lambda>tk. \<lparr>r_label = label tk, r_deps = deps tk,
                 r_compute = (\<lambda>k values. ([], compute tk values)),
                 r_promise = None, r_result = None, r_id = task_id tk\<rparr>) h"

text \<open>
  A state of the second model that matches a state of the first: the same graph, caches
  and invocations; every task that was started has one execution, which is the one its
  \<open>_promise\<close> refers to, and whose status matches the task's frame and promise in the
  first model. A source matches a dependency when it is the \<open>_result\<close> of that dependency
  or its one execution.
\<close>

definition same_node :: "('a, 'e) rtask \<Rightarrow> ('a, 'e) task \<Rightarrow> bool" where
  "same_node x tk =
     (r_label x = label tk \<and> r_deps x = deps tk \<and>
      r_compute x = (\<lambda>k values. ([], compute tk values)) \<and>
      r_result x = task_result tk \<and> r_id x = task_id tk)"

definition src_rel :: "('a, 'e) rstate \<Rightarrow> ('a, 'e) state \<Rightarrow> ('a, 'e) source \<Rightarrow> ref \<Rightarrow> bool" where
  "src_rel rs s src d =
     (case src of
        Cached r \<Rightarrow> task_result (heap s ! d) = Some r
      | Inflight p \<Rightarrow> r_promise (rheap rs ! d) = Some p)"

definition status_rel ::
  "('a, 'e) rstate \<Rightarrow> ('a, 'e) state \<Rightarrow> ref \<Rightarrow> ('a, 'e) execution \<Rightarrow> bool" where
  "status_rel rs s t e =
     (case e of
        Computing r \<Rightarrow>
          (\<exists>args. frames s t = Some (AwaitCompute args) \<and> r = compute (heap s ! t) args)
      | Racing srcs \<Rightarrow>
          frames s t = Some AwaitRace \<and> list_all2 (src_rel rs s) srcs (deps (heap s ! t))
      | Returned r \<Rightarrow> task_promise (heap s ! t) = Some (Resolved r))"

definition node_rel :: "('a, 'e) rstate \<Rightarrow> ('a, 'e) state \<Rightarrow> ref \<Rightarrow> bool" where
  "node_rel rs s t =
     (same_node (rheap rs ! t) (heap s ! t) \<and>
      (case r_promise (rheap rs ! t) of
         None \<Rightarrow> task_promise (heap s ! t) = None
       | Some p \<Rightarrow>
           p < length (flights rs) \<and> target (flights rs ! p) = t \<and>
           resumed (flights rs ! p) = (t \<notin> awaiting s) \<and>
           status_rel rs s t (status (flights rs ! p))))"

definition sim :: "('a, 'e) rstate \<Rightarrow> ('a, 'e) state \<Rightarrow> bool" where
  "sim rs s =
     (length (rheap rs) = length (heap s) \<and> rcalls rs = calls s \<and>
      (\<forall>p < length (flights rs).
         target (flights rs ! p) < length (heap s) \<and>
         r_promise (rheap rs ! target (flights rs ! p)) = Some p) \<and>
      (\<forall>t < length (heap s). node_rel rs s t))"

text \<open>What \<open>run\<close> never undoes in the second model: a \<open>_promise\<close> that is assigned stays.\<close>

definition keeps :: "('a, 'e) rstate \<Rightarrow> ('a, 'e) rstate \<Rightarrow> bool" where
  "keeps rs rs' = (\<forall>d p. r_promise (rheap rs ! d) = Some p \<longrightarrow> r_promise (rheap rs' ! d) = Some p)"

section \<open>Orders of nodes\<close>

text \<open>
  A list of nodes in which every node comes after all of its dependencies, and the labels
  of a list of nodes.
\<close>

definition topo :: "('a, 'e) task list \<Rightarrow> ref list \<Rightarrow> bool" where
  "topo h ns = (\<forall>i < length ns. \<forall>d \<in> set (deps (h ! (ns ! i))). d \<in> set (take i ns))"

definition labels_of :: "('a, 'e) task list \<Rightarrow> ref list \<Rightarrow> string list" where
  "labels_of h ns = map (\<lambda>n. label (h ! n)) ns"

text \<open>
  The state of a traversal below the bound \<open>b\<close>: the nodes \<open>ns\<close> whose labels were pushed
  are visited, and every visited node below \<open>b\<close> has been pushed.
\<close>

definition visit_ok :: "('a, 'e) task list \<Rightarrow> nat \<Rightarrow> nat set \<Rightarrow> ref list \<Rightarrow> bool" where
  "visit_ok h b V ns =
     (set ns \<subseteq> V \<and> (\<forall>x \<in> V. x < b \<longrightarrow> x \<in> set ns) \<and> distinct ns \<and> topo h ns)"

text \<open>The number of identity tokens of the heap that a traversal has not visited yet.\<close>

definition unvisited :: "('a, 'e) task list \<Rightarrow> nat set \<Rightarrow> nat" where
  "unvisited h V = card (task_id ` set h - V)"

section \<open>Example graphs and schedules\<close>

text \<open>The state a schedule leads to, from a heap with empty caches.\<close>

definition final :: "event list \<Rightarrow> ('a, 'e) task list \<Rightarrow> ('a, 'e) state" where
  "final evs h = the (exec evs (init h))"

text \<open>
  The diamond of the test suite: \<open>a\<close> yields 10, \<open>b\<close> doubles it, \<open>c\<close> triples it and
  \<open>d\<close> adds the two.
\<close>

definition leaf_ok :: "nat \<Rightarrow> (nat, string) helpers \<Rightarrow> nat val list \<Rightarrow> (nat, string) result" where
  "leaf_ok n hs vs = h_ok hs (Atom n)"

definition leaf_err :: "string \<Rightarrow> (nat, string) helpers \<Rightarrow> nat val list \<Rightarrow> (nat, string) result" where
  "leaf_err e hs vs = h_err hs e"

definition times :: "nat \<Rightarrow> (nat, string) helpers \<Rightarrow> nat val list \<Rightarrow> (nat, string) result" where
  "times k hs vs = h_ok hs (Atom (case vs of [Atom x] \<Rightarrow> x * k | _ \<Rightarrow> 0))"

definition plus :: "(nat, string) helpers \<Rightarrow> nat val list \<Rightarrow> (nat, string) result" where
  "plus hs vs = h_ok hs (Atom (case vs of [Atom x, Atom y] \<Rightarrow> x + y | _ \<Rightarrow> 0))"

definition diamond :: "(nat, string) task list" where
  "diamond =
     snd (task ''d'' [1, 2] plus
       (snd (task ''c'' [0] (times 3)
         (snd (task ''b'' [0] (times 2)
           (snd (task ''a'' [] (leaf_ok 10) [])))))))"

text \<open>
  The failing diamond of the test suite: \<open>a\<close> fails with \<open>''root error''\<close>, and a
  schedule that runs \<open>d\<close> to its settled result.
\<close>

definition failing_diamond :: "(nat, string) task list" where
  "failing_diamond =
     snd (task ''d'' [1, 2] plus
       (snd (task ''c'' [0] (times 3)
         (snd (task ''b'' [0] (times 2)
           (snd (task ''a'' [] (leaf_err ''root error'') [])))))))"

definition root_fails :: "event list" where
  "root_fails =
     [Run 3, ComputeDone 0, Settle 0, RaceError 1 0, RaceError 2 0, Settle 2, RaceError 3 2,
      Settle 3, Settle 1]"

text \<open>Two failing leaves \<open>a\<close> (slow) and \<open>b\<close> (fast), and \<open>d\<close> depending on \<open>[a, b]\<close>.\<close>

definition two_failures :: "(nat, string) task list" where
  "two_failures =
     snd (task ''d'' [0, 1] plus
       (snd (task ''b'' [] (leaf_err ''B'')
         (snd (task ''a'' [] (leaf_err ''A'') [])))))"

text \<open>
  A node whose compute ignores the helper it is given and calls the exported \<open>err\<close> on
  another node.
\<close>

definition blame_other :: "(nat, string) helpers \<Rightarrow> nat val list \<Rightarrow> (nat, string) result" where
  "blame_other hs vs = err 0 ''blamed''"

definition blaming :: "(nat, string) task list" where
  "blaming =
     snd (task ''accuser'' [] blame_other
       (snd (task ''innocent'' [] (leaf_ok 1) [])))"

text \<open>A schedule that runs the diamond to completion, with repeated calls of \<open>run\<close>.\<close>

definition diamond_schedule :: "event list" where
  "diamond_schedule =
     [Run 3, Run 3, ComputeDone 0, Run 1, Settle 0, RaceSuccess 1, RaceSuccess 2,
      ComputeDone 2, ComputeDone 1, Settle 1, Settle 2, Run 0, RaceSuccess 3, ComputeDone 3,
      Settle 3, Run 3]"

text \<open>
  Schedules on \<open>two_failures\<close>. In the first, the leaf \<open>a\<close> is run alone and fails. In the
  second, \<open>d\<close> is run, the fast \<open>b\<close> fails first and wins the race of \<open>d\<close>, and \<open>a\<close> fails
  afterwards.
\<close>

definition leaf_fails :: "event list" where
  "leaf_fails = [Run 0, ComputeDone 0, Settle 0]"

definition fast_wins :: "event list" where
  "fast_wins = [Run 2, ComputeDone 1, Settle 1, RaceError 2 1]"

definition fast_wins_settled :: "event list" where
  "fast_wins_settled = fast_wins @ [Settle 2, ComputeDone 0, Settle 0]"

text \<open>Both leaves of \<open>two_failures\<close> are run and fail before \<open>d\<close> is ever run.\<close>

definition both_leaves_fail :: "event list" where
  "both_leaves_fail = [Run 0, Run 1, ComputeDone 1, Settle 1, ComputeDone 0, Settle 0]"

text \<open>
  \<open>all\<close> over the two inner nodes of the diamond, a schedule that runs it to completion,
  and \<open>all\<close> over no task at all.
\<close>

definition diamond_all :: "(nat, string) task list" where
  "diamond_all = snd (all ''both'' [1, 2] diamond)"

definition all_schedule :: "event list" where
  "all_schedule =
     [Run 4, ComputeDone 0, Settle 0, RaceSuccess 2, RaceSuccess 1, ComputeDone 2, ComputeDone 1,
      Settle 1, Settle 2]"

definition empty_all :: "(nat, string) task list" where
  "empty_all = snd (all ''nothing'' [] diamond)"

text \<open>The accuser of \<open>blaming\<close> is run alone.\<close>

definition accuse :: "event list" where
  "accuse = [Run 1, ComputeDone 1, Settle 1]"

text \<open>
  Two tasks that depend on each other (no call of \<open>task\<close> builds them: the \<open>deps\<close> array
  of the first is extended afterwards).
\<close>

definition knot :: "(nat, string) task list" where
  "knot =
     [\<lparr>label = ''a'', deps = [1], compute = (\<lambda>vs. Ok (Atom 0)), task_promise = None,
        task_result = None, task_id = 0\<rparr>,
      \<lparr>label = ''b'', deps = [0], compute = (\<lambda>vs. Ok (Atom 0)), task_promise = None,
        task_result = None, task_id = 1\<rparr>]"

text \<open>
  User functions that call \<open>run\<close>. \<open>again t\<close> calls \<open>run(t)\<close> when it is invoked for
  the first time, and resolves with 10:

  \<^verbatim>\<open>async ({ok}) => { if (first) { first = false; run(t); } return ok(10); }\<close>

  \<open>relapse t\<close> calls \<open>run(t)\<close> and fails at once when it is invoked for the first time,
  and succeeds with 5, after a delay, when it is invoked again:

  \<^verbatim>\<open>async ({ok, err}) => { if (first) { first = false; run(t); return err('first'); }\<close>
  \<^verbatim>\<open>                      await delay(10); return ok(5); }\<close>
\<close>

definition again ::
  "ref \<Rightarrow> (nat, string) helpers \<Rightarrow> nat \<Rightarrow> nat val list \<Rightarrow> ref list \<times> (nat, string) result" where
  "again t hs k vs = (if k = 0 then [t] else [], h_ok hs (Atom 10))"

definition relapse ::
  "ref \<Rightarrow> (nat, string) helpers \<Rightarrow> nat \<Rightarrow> nat val list \<Rightarrow> ref list \<times> (nat, string) result" where
  "relapse t hs k vs = (if k = 0 then ([t], h_err hs ''first'') else ([], h_ok hs (Atom 5)))"

text \<open>
  The diamond of the test suite, with a leaf \<open>a\<close> that calls \<open>run(a)\<close> on its first
  invocation; a single leaf \<open>a\<close> that calls \<open>run(a)\<close> and fails on its first invocation;
  and a task \<open>d\<close> that doubles the value of its dependency \<open>a\<close>, a leaf that calls
  \<open>run(d)\<close> and fails on its first invocation.
\<close>

definition reentrant_diamond :: "(nat, string) rtask list" where
  "reentrant_diamond =
     snd (task_re ''d'' [1, 2] (quiet plus)
       (snd (task_re ''c'' [0] (quiet (times 3))
         (snd (task_re ''b'' [0] (quiet (times 2))
           (snd (task_re ''a'' [] (again 0) [])))))))"

definition relapsing_leaf :: "(nat, string) rtask list" where
  "relapsing_leaf = snd (task_re ''a'' [] (relapse 0) [])"

definition relapsing_pair :: "(nat, string) rtask list" where
  "relapsing_pair =
     snd (task_re ''d'' [0] (quiet (times 2))
       (snd (task_re ''a'' [] (relapse 1) [])))"

text \<open>
  Schedules on these graphs, with the state they lead to from empty caches (a call stack
  of depth 4 is enough for them). In \<open>fails_first\<close> the execution that \<open>run(a)\<close> started
  last (number 1: the caller's) fails and is written to \<open>_result\<close>; in \<open>succeeds_later\<close>
  the other one, started by the compute's own call, then succeeds. In \<open>forwards_first\<close>
  the caller's \<open>run(d)\<close> (execution 3) loses its race to the failure of \<open>a\<close> (execution 2);
  in \<open>computes_later\<close> the executions 0 of \<open>a\<close> and 1 of \<open>d\<close>, started by the compute's
  call of \<open>run(d)\<close>, then succeed.
\<close>

definition final_re :: "revent list \<Rightarrow> ('a, 'e) rtask list \<Rightarrow> ('a, 'e) rstate" where
  "final_re evs h = the (exec_re 4 evs (init_re h))"

definition fails_first :: "revent list" where
  "fails_first = [Call 0, Computed 1, Resumed 1]"

definition succeeds_later :: "revent list" where
  "succeeds_later = fails_first @ [Call 0, Computed 0, Resumed 0]"

definition forwards_first :: "revent list" where
  "forwards_first = [Call 1, Computed 2, Resumed 2, Failed 3 0, Resumed 3]"

definition computes_later :: "revent list" where
  "computes_later = forwards_first @ [Call 1, Computed 0, Resumed 0, Succeeded 1, Computed 1, Resumed 1]"

section \<open>The graph is never changed by execution\<close>

lemma graph_of_length: "graph_of h' = graph_of h \<Longrightarrow> length h' = length h"
proof -
  assume "graph_of h' = graph_of h"
  then have "length (graph_of h') = length (graph_of h)" by simp
  then show ?thesis unfolding graph_of_def by simp
qed

lemma graph_of_nth:
  assumes "graph_of h' = graph_of h" "i < length h"
  shows "deps (h' ! i) = deps (h ! i)" "compute (h' ! i) = compute (h ! i)"
        "label (h' ! i) = label (h ! i)" "task_id (h' ! i) = task_id (h ! i)"
proof -
  let ?f = "\<lambda>tk::('a, 'e) task. tk\<lparr>task_promise := None, task_result := None\<rparr>"
  have l: "length h' = length h" using assms(1) by (rule graph_of_length)
  have "map ?f h' ! i = map ?f h ! i" using assms(1) unfolding graph_of_def by simp
  then have e: "?f (h' ! i) = ?f (h ! i)" using assms(2) l by simp
  have "deps (?f (h' ! i)) = deps (?f (h ! i))" using e by simp
  then show "deps (h' ! i) = deps (h ! i)" by simp
  have "compute (?f (h' ! i)) = compute (?f (h ! i))" using e by simp
  then show "compute (h' ! i) = compute (h ! i)" by simp
  have "label (?f (h' ! i)) = label (?f (h ! i))" using e by simp
  then show "label (h' ! i) = label (h ! i)" by simp
  have "task_id (?f (h' ! i)) = task_id (?f (h ! i))" using e by simp
  then show "task_id (h' ! i) = task_id (h ! i)" by simp
qed

lemma graph_of_wf:
  assumes g: "graph_of h' = graph_of h" and w: "wf_heap h"
  shows "wf_heap h'"
  unfolding wf_heap_def
proof (intro allI impI)
  fix i assume "i < length h'"
  then have i: "i < length h" using graph_of_length[OF g] by simp
  show "(\<forall>d \<in> set (deps (h' ! i)). d < i) \<and> task_id (h' ! i) = i"
    using w i graph_of_nth(1,4)[OF g i] unfolding wf_heap_def by simp
qed

lemma graph_of_update_promise [simp]:
  "graph_of (h[t := (h ! t)\<lparr>task_promise := p\<rparr>]) = graph_of h"
  unfolding graph_of_def by (cases "t < length h") (auto simp: list_eq_iff_nth_eq nth_list_update)

lemma graph_of_update_result [simp]:
  "graph_of (h[t := (h ! t)\<lparr>task_result := p\<rparr>]) = graph_of h"
  unfolding graph_of_def by (cases "t < length h") (auto simp: list_eq_iff_nth_eq nth_list_update)

section \<open>Monotonicity\<close>

lemma extends_refl: "extends s s"
  unfolding extends_def by simp

lemma extends_trans: "extends s s' \<Longrightarrow> extends s' s'' \<Longrightarrow> extends s s''"
  unfolding extends_def by auto

lemma extends_graph: "extends s s' \<Longrightarrow> graph_of (heap s') = graph_of (heap s)"
  unfolding extends_def by simp

lemma extends_length: "extends s s' \<Longrightarrow> length (heap s') = length (heap s)"
  using extends_graph graph_of_length by blast

lemma extends_started: "extends s s' \<Longrightarrow> started s d \<Longrightarrow> started s' d"
  unfolding extends_def by simp

lemma extends_outcome: "extends s s' \<Longrightarrow> outcome s d = Some r \<Longrightarrow> outcome s' d = Some r"
  unfolding extends_def by simp

lemma extends_result:
  "extends s s' \<Longrightarrow> task_result (heap s ! d) = Some r \<Longrightarrow> task_result (heap s' ! d) = Some r"
  unfolding extends_def by simp

lemma extends_calls: "extends s s' \<Longrightarrow> \<exists>cs. calls s' = calls s @ cs"
  unfolding extends_def by simp

lemma outcome_same: "heap s' ! d = heap s ! d \<Longrightarrow> outcome s' d = outcome s d"
  unfolding outcome_def by (simp cong: option.case_cong)

lemma outcome_result: "task_result (heap s ! d) = Some r \<Longrightarrow> outcome s d = Some r"
  unfolding outcome_def by simp

lemma extends_heap_same:
  assumes "heap s' = heap s" "\<exists>cs. calls s' = calls s @ cs"
  shows "extends s s'"
proof -
  have "\<And>d. outcome s' d = outcome s d" using outcome_same assms(1) by metis
  then show ?thesis unfolding extends_def started_def using assms by simp
qed

lemma extends_set_promise:
  assumes h: "heap s' = (heap s)[t := (heap s ! t)\<lparr>task_promise := Some p\<rparr>]"
    and c: "\<exists>cs. calls s' = calls s @ cs"
    and o: "t < length (heap s) \<Longrightarrow> outcome s t = None"
  shows "extends s s'"
proof (cases "t < length (heap s)")
  case False
  then have "heap s' = heap s" using h by (simp add: not_less list_update_beyond)
  then show ?thesis using c by (rule extends_heap_same)
next
  case True
  have n: "\<And>d. d \<noteq> t \<Longrightarrow> heap s' ! d = heap s ! d" using h by simp
  have tt: "heap s' ! t = (heap s ! t)\<lparr>task_promise := Some p\<rparr>" using h True by simp
  have "\<And>d. started s d \<Longrightarrow> started s' d"
  proof -
    fix d assume "started s d"
    then show "started s' d" unfolding started_def using n tt by (cases "d = t") simp_all
  qed
  moreover have "\<And>d r. outcome s d = Some r \<Longrightarrow> outcome s' d = Some r"
  proof -
    fix d r assume a: "outcome s d = Some r"
    then have "d \<noteq> t" using o[OF True] by auto
    then show "outcome s' d = Some r" using a n outcome_same by metis
  qed
  moreover have "\<And>d r. task_result (heap s ! d) = Some r \<Longrightarrow> task_result (heap s' ! d) = Some r"
  proof -
    fix d r assume "task_result (heap s ! d) = Some r"
    then show "task_result (heap s' ! d) = Some r" using n tt by (cases "d = t") simp_all
  qed
  ultimately show ?thesis unfolding extends_def using h c by simp
qed

lemma extends_set_result:
  assumes h: "heap s' = (heap s)[t := (heap s ! t)\<lparr>task_result := Some r\<rparr>]"
    and c: "\<exists>cs. calls s' = calls s @ cs"
    and o: "t < length (heap s) \<Longrightarrow> outcome s t = Some r \<and> task_result (heap s ! t) = None"
  shows "extends s s'"
proof (cases "t < length (heap s)")
  case False
  then have "heap s' = heap s" using h by (simp add: not_less list_update_beyond)
  then show ?thesis using c by (rule extends_heap_same)
next
  case True
  have n: "\<And>d. d \<noteq> t \<Longrightarrow> heap s' ! d = heap s ! d" using h by simp
  have tt: "heap s' ! t = (heap s ! t)\<lparr>task_result := Some r\<rparr>" using h True by simp
  have "\<And>d. started s d \<Longrightarrow> started s' d"
  proof -
    fix d assume "started s d"
    then show "started s' d" unfolding started_def using n tt by (cases "d = t") simp_all
  qed
  moreover have "\<And>d r'. outcome s d = Some r' \<Longrightarrow> outcome s' d = Some r'"
  proof -
    fix d r' assume a: "outcome s d = Some r'"
    show "outcome s' d = Some r'"
    proof (cases "d = t")
      case True
      then have "r' = r" using a o[OF \<open>t < length (heap s)\<close>] by simp
      then show ?thesis using True tt unfolding outcome_def by simp
    next
      case False
      then show ?thesis using a n outcome_same by metis
    qed
  qed
  moreover have "\<And>d r'. task_result (heap s ! d) = Some r' \<Longrightarrow> task_result (heap s' ! d) = Some r'"
  proof -
    fix d r' assume "task_result (heap s ! d) = Some r'"
    then show "task_result (heap s' ! d) = Some r'" using n o[OF True] by (cases "d = t") simp_all
  qed
  ultimately show ?thesis unfolding extends_def using h c by simp
qed

lemma map_Some_mono:
  assumes "map f xs = map (\<lambda>v. Some (g v)) args" "\<And>x r. f x = Some r \<Longrightarrow> f' x = Some r"
  shows "map f' xs = map (\<lambda>v. Some (g v)) args"
  using assms(1)
proof (induction xs arbitrary: args)
  case Nil
  then show ?case by simp
next
  case (Cons x xs)
  then obtain a as where args: "args = a # as" by (cases args) auto
  have "f x = Some (g a)" "map f xs = map (\<lambda>v. Some (g v)) as" using Cons.prems args by simp_all
  then show ?case using Cons.IH assms(2) args by simp
qed

lemma extends_deps_resolved:
  assumes "extends s s'" "t < length (heap s)" "deps_resolved s t args"
  shows "deps_resolved s' t args"
proof -
  have d: "deps (heap s' ! t) = deps (heap s ! t)"
    using graph_of_nth(1)[OF extends_graph[OF assms(1)] assms(2)] .
  have m: "map (outcome s) (deps (heap s ! t)) = map (\<lambda>v. Some (Ok v)) args"
    using assms(3) unfolding deps_resolved_def .
  have "map (outcome s') (deps (heap s ! t)) = map (\<lambda>v. Some (Ok v)) args"
  proof (rule map_Some_mono[OF m])
    fix x r assume "outcome s x = Some r"
    then show "outcome s' x = Some r" using extends_outcome[OF assms(1)] by simp
  qed
  then show ?thesis unfolding deps_resolved_def d .
qed

lemma calls_of_append: "calls s' = calls s @ cs \<Longrightarrow> calls_of s' t = calls_of s t @ filter (\<lambda>c. fst c = t) cs"
  unfolding calls_of_def by simp

section \<open>The invariant, node by node\<close>

lemma node_ok_transfer:
  assumes ok: "node_ok s t" and ext: "extends s s'" and t: "t < length (heap s)"
    and v: "view s' t = view s t"
  shows "node_ok s' t"
proof -
  have g: "graph_of (heap s') = graph_of (heap s)" using extends_graph[OF ext] .
  have d: "deps (heap s' ! t) = deps (heap s ! t)" "compute (heap s' ! t) = compute (heap s ! t)"
    using graph_of_nth[OF g t] by simp_all
  have dr: "\<And>args. deps_resolved s t args \<Longrightarrow> deps_resolved s' t args"
    using extends_deps_resolved[OF ext t] .
  have c: "calls_of s' t = calls_of s t" "task_promise (heap s' ! t) = task_promise (heap s ! t)"
    "task_result (heap s' ! t) = task_result (heap s ! t)" "frames s' t = frames s t"
    "(t \<in> awaiting s') = (t \<in> awaiting s)"
    using v unfolding view_def by simp_all
  have oc: "\<And>d r. outcome s d = Some r \<Longrightarrow> outcome s' d = Some r"
    using extends_outcome[OF ext] .
  have pr: "\<And>r. provenance s t r \<Longrightarrow> provenance s' t r"
    unfolding provenance_def c d using dr oc by blast
  have st: "(\<forall>d \<in> set (deps (heap s ! t)). started s d) \<Longrightarrow>
      (\<forall>d \<in> set (deps (heap s ! t)). started s' d)"
    using extends_started[OF ext] by simp
  show ?thesis
  proof (cases "task_promise (heap s ! t)")
    case None
    then show ?thesis using ok unfolding node_ok_def c d by simp
  next
    case (Some p)
    show ?thesis
    proof (cases p)
      case Pending
      show ?thesis
      proof (cases "frames s t")
        case None
        then show ?thesis
          using ok \<open>task_promise (heap s ! t) = Some p\<close> Pending unfolding node_ok_def c d by simp
      next
        case (Some f)
        then show ?thesis using ok \<open>task_promise (heap s ! t) = Some p\<close> Pending dr st
          unfolding node_ok_def c d by (cases f) simp_all
      qed
    next
      case (Resolved r)
      then show ?thesis using ok Some pr unfolding node_ok_def c d by simp
    qed
  qed
qed

lemma invariantI:
  assumes i: "invariant s" and e: "extends s s'"
    and others: "\<And>u. u < length (heap s) \<Longrightarrow> u \<noteq> t \<Longrightarrow> view s' u = view s u"
    and self: "t < length (heap s) \<Longrightarrow> node_ok s' t"
  shows "invariant s'"
proof -
  have g: "graph_of (heap s') = graph_of (heap s)" using extends_graph[OF e] .
  have l: "length (heap s') = length (heap s)" using g by (rule graph_of_length)
  have w: "wf_heap (heap s')" using graph_of_wf[OF g] i unfolding invariant_def by simp
  have "\<forall>u < length (heap s'). node_ok s' u"
  proof (intro allI impI)
    fix u assume u: "u < length (heap s')"
    show "node_ok s' u"
    proof (cases "u = t")
      case True
      then show ?thesis using self u l by simp
    next
      case False
      have ul: "u < length (heap s)" using u l by simp
      have "node_ok s u" using i ul unfolding invariant_def by simp
      then show ?thesis using node_ok_transfer[OF _ e ul others[OF ul False]] by simp
    qed
  qed
  then show ?thesis using w unfolding invariant_def by simp
qed

lemma node_ok_frame:
  assumes "node_ok s t" "frames s t = Some f"
  shows "task_promise (heap s ! t) = Some Pending" "task_result (heap s ! t) = None"
    "t \<in> awaiting s" "outcome s t = None"
  using assms unfolding node_ok_def outcome_def
  by (auto split: option.splits promise.splits)

lemma node_ok_AwaitCompute:
  assumes "node_ok s t" "frames s t = Some (AwaitCompute args)"
  shows "calls_of s t = [(t, args)]" "deps_resolved s t args"
  using assms unfolding node_ok_def
  by (auto split: option.splits promise.splits)

lemma node_ok_AwaitRace:
  assumes "node_ok s t" "frames s t = Some AwaitRace"
  shows "calls_of s t = []" "deps (heap s ! t) \<noteq> []" "\<forall>d \<in> set (deps (heap s ! t)). started s d"
  using assms unfolding node_ok_def
  by (auto split: option.splits promise.splits)

lemma node_ok_unstarted:
  assumes "node_ok s t" "task_promise (heap s ! t) = None"
  shows "task_result (heap s ! t) = None" "frames s t = None" "t \<notin> awaiting s" "calls_of s t = []"
    "outcome s t = None"
  using assms unfolding node_ok_def outcome_def by auto

lemma node_ok_awaiting:
  assumes "node_ok s t" "t \<in> awaiting s" "task_promise (heap s ! t) = Some (Resolved r)"
  shows "task_result (heap s ! t) = None" "frames s t = None" "provenance s t r" "outcome s t = Some r"
  using assms unfolding node_ok_def outcome_def by auto

lemma node_ok_resolved:
  assumes "node_ok s t" "task_promise (heap s ! t) = Some (Resolved r)"
  shows "frames s t = None" "provenance s t r" "outcome s t = Some r"
    "t \<notin> awaiting s \<Longrightarrow> task_result (heap s ! t) = Some r"
  using assms unfolding node_ok_def outcome_def by (auto split: if_splits)

lemma node_ok_pending:
  assumes "node_ok s t" "task_promise (heap s ! t) = Some Pending"
  shows "frames s t \<noteq> None" "task_result (heap s ! t) = None" "t \<in> awaiting s"
  using assms unfolding node_ok_def by (auto split: option.splits)

lemma node_ok_outcome:
  assumes "node_ok s t" "outcome s t = Some r"
  shows "task_promise (heap s ! t) = Some (Resolved r)" "provenance s t r" "frames s t = None"
  using assms unfolding node_ok_def outcome_def
  by (auto split: option.splits promise.splits if_splits)

lemma node_ok_calls: "node_ok s t \<Longrightarrow> calls_of s t = [] \<or> (\<exists>args. calls_of s t = [(t, args)])"
  unfolding node_ok_def provenance_def
  by (auto split: option.splits promise.splits frame.splits)

lemma deps_resolved_outcome:
  assumes "deps_resolved s t args" "d \<in> set (deps (heap s ! t))"
  shows "\<exists>v. outcome s d = Some (Ok v)"
proof -
  have "outcome s d \<in> set (map (outcome s) (deps (heap s ! t)))" using assms(2) by simp
  then have "outcome s d \<in> set (map (\<lambda>v. Some (Ok v)) args)"
    using assms(1) unfolding deps_resolved_def by simp
  then show ?thesis by auto
qed

lemma deps_resolved_Nil: "deps (heap s ! t) = [] \<Longrightarrow> deps_resolved s t args \<Longrightarrow> args = []"
  unfolding deps_resolved_def by simp

lemma outcome_started:
  assumes "node_ok s d" "outcome s d = Some r"
  shows "started s d"
  using node_ok_outcome(1)[OF assms] unfolding started_def by simp

lemma node_ok_called:
  assumes n: "node_ok s t" and c: "calls_of s t = [(t, args)]"
  shows "deps_resolved s t args"
proof (cases "task_promise (heap s ! t)")
  case None
  then show ?thesis using node_ok_unstarted(4)[OF n] c by simp
next
  case (Some p)
  show ?thesis
  proof (cases p)
    case Pending
    then obtain f where f: "frames s t = Some f" using node_ok_pending(1)[OF n] Some by auto
    show ?thesis
    proof (cases f)
      case (AwaitCompute args')
      then show ?thesis using node_ok_AwaitCompute[OF n] f c by auto
    next
      case AwaitRace
      then show ?thesis using node_ok_AwaitRace(1)[OF n] f c by simp
    qed
  next
    case (Resolved r)
    then have "provenance s t r" using node_ok_resolved(2)[OF n] Some by simp
    then show ?thesis unfolding provenance_def using c by auto
  qed
qed

lemma map_Some_Ok_inj: "map (\<lambda>v. Some (Ok v)) xs = map (\<lambda>v. Some (Ok v)) ys \<Longrightarrow> xs = ys"
proof (induction xs arbitrary: ys)
  case Nil
  then show ?case by simp
next
  case (Cons x xs)
  then show ?case by (cases ys) auto
qed

lemma deps_resolved_result:
  assumes n: "node_ok s t" and d: "deps_resolved s t vs" and o: "outcome s t = Some r"
  shows "r = compute (heap s ! t) vs" "calls_of s t = [(t, vs)]"
proof -
  have pr: "provenance s t r" using node_ok_outcome(2)[OF n o] .
  have c: "calls_of s t \<noteq> []"
  proof
    assume "calls_of s t = []"
    then obtain x where x: "x \<in> set (deps (heap s ! t))" "outcome s x = Some r" and nr: "\<not> is_ok r"
      using pr unfolding provenance_def by auto
    obtain v where "outcome s x = Some (Ok v)" using deps_resolved_outcome[OF d x(1)] by blast
    then show False using x(2) nr by simp
  qed
  then obtain args where a: "calls_of s t = [(t, args)]" "r = compute (heap s ! t) args"
    "deps_resolved s t args"
    using pr unfolding provenance_def by auto
  have e1: "map (outcome s) (deps (heap s ! t)) = map (\<lambda>v. Some (Ok v)) args"
    using a(3) unfolding deps_resolved_def .
  have e2: "map (outcome s) (deps (heap s ! t)) = map (\<lambda>v. Some (Ok v)) vs"
    using d unfolding deps_resolved_def .
  have "args = vs" using map_Some_Ok_inj[OF trans[OF sym[OF e1] e2]] .
  then show "r = compute (heap s ! t) vs" "calls_of s t = [(t, vs)]" using a by simp_all
qed

lemma all_outcome:
  assumes n: "node_ok s t" and c: "\<And>vs. compute (heap s ! t) vs = Ok (Tuple vs)"
    and d: "deps_resolved s t vs" and o: "outcome s t = Some r"
  shows "r = Ok (Tuple vs)"
  using deps_resolved_result(1)[OF n d o] c by simp

section \<open>Every step preserves the invariant\<close>

lemma step_ComputeDone_inv:
  assumes i: "invariant s" and st: "step (ComputeDone t) s = Some s'"
  shows "invariant s' \<and> extends s s'"
proof -
  obtain args where f: "frames s t = Some (AwaitCompute args)"
    and s': "s' = resolve t (compute (heap s ! t) args) s"
    using st by (auto split: option.splits frame.splits)
  have h: "heap s' = (heap s)[t := (heap s ! t)\<lparr>task_promise := Some (Resolved (compute (heap s ! t) args))\<rparr>]"
    and c: "\<exists>cs. calls s' = calls s @ cs"
    unfolding s' resolve_def by simp_all
  have nt: "t < length (heap s) \<Longrightarrow> node_ok s t" using i unfolding invariant_def by simp
  have e: "extends s s'"
    using extends_set_promise[OF h c] node_ok_frame(4)[OF nt f] by simp
  have others: "\<And>u. u < length (heap s) \<Longrightarrow> u \<noteq> t \<Longrightarrow> view s' u = view s u"
    unfolding view_def s' resolve_def calls_of_def by simp
  have self: "node_ok s' t" if t: "t < length (heap s)"
  proof -
    note n = nt[OF t]
    have c: "calls_of s' t = [(t, args)]"
      using node_ok_AwaitCompute(1)[OF n f] unfolding s' resolve_def calls_of_def by simp
    have dr: "deps_resolved s' t args"
      using extends_deps_resolved[OF e t node_ok_AwaitCompute(2)[OF n f]] .
    have cmp: "compute (heap s' ! t) = compute (heap s ! t)"
      unfolding s' resolve_def using t by simp
    have "provenance s' t (compute (heap s ! t) args)"
      unfolding provenance_def using c dr cmp by simp
    moreover have "t \<in> awaiting s'" "task_result (heap s' ! t) = None" "frames s' t = None"
      "task_promise (heap s' ! t) = Some (Resolved (compute (heap s ! t) args))"
      using node_ok_frame[OF n f] t unfolding s' resolve_def by simp_all
    ultimately show ?thesis unfolding node_ok_def by simp
  qed
  show ?thesis using invariantI[OF i e others self] e by simp
qed

lemma step_RaceError_inv:
  assumes i: "invariant s" and st: "step (RaceError t d) s = Some s'"
  shows "invariant s' \<and> extends s s'"
proof -
  obtain e a where f: "frames s t = Some AwaitRace"
    and d: "d \<in> set (deps (heap s ! t))" and od: "outcome s d = Some (Err e a)"
    and s': "s' = resolve t (Err e a) s"
    using st by (auto split: option.splits frame.splits if_splits result.splits)
  have h: "heap s' = (heap s)[t := (heap s ! t)\<lparr>task_promise := Some (Resolved (Err e a))\<rparr>]"
    and c: "\<exists>cs. calls s' = calls s @ cs"
    unfolding s' resolve_def by simp_all
  have nt: "t < length (heap s) \<Longrightarrow> node_ok s t" using i unfolding invariant_def by simp
  have ex: "extends s s'"
    using extends_set_promise[OF h c] node_ok_frame(4)[OF nt f] by simp
  have others: "\<And>u. u < length (heap s) \<Longrightarrow> u \<noteq> t \<Longrightarrow> view s' u = view s u"
    unfolding view_def s' resolve_def calls_of_def by simp
  have self: "node_ok s' t" if t: "t < length (heap s)"
  proof -
    note n = nt[OF t]
    have c: "calls_of s' t = []"
      using node_ok_AwaitRace(1)[OF n f] unfolding s' resolve_def calls_of_def by simp
    have dp: "deps (heap s' ! t) = deps (heap s ! t)"
      unfolding s' resolve_def using t by simp
    have "outcome s' d = Some (Err e a)" using extends_outcome[OF ex od] .
    then have "provenance s' t (Err e a)"
      unfolding provenance_def using c d dp by auto
    moreover have "t \<in> awaiting s'" "task_result (heap s' ! t) = None" "frames s' t = None"
      "task_promise (heap s' ! t) = Some (Resolved (Err e a))"
      using node_ok_frame[OF n f] t unfolding s' resolve_def by simp_all
    ultimately show ?thesis unfolding node_ok_def by simp
  qed
  show ?thesis using invariantI[OF i ex others self] ex by simp
qed

lemma all_ok_Some: "all_ok rs = Some vs \<Longrightarrow> rs = map (\<lambda>v. Some (Ok v)) vs"
proof (induction rs arbitrary: vs rule: all_ok.induct)
  case 1
  then show ?case by simp
next
  case (2 v rs)
  then show ?case by (auto split: option.splits)
qed simp_all

lemma step_RaceSuccess_inv:
  assumes i: "invariant s" and st: "step (RaceSuccess t) s = Some s'"
  shows "invariant s' \<and> extends s s'"
proof -
  obtain vs where f: "frames s t = Some AwaitRace"
    and a: "all_ok (map (outcome s) (deps (heap s ! t))) = Some vs"
    and s': "s' = s\<lparr>frames := (frames s)(t \<mapsto> AwaitCompute vs), calls := calls s @ [(t, vs)]\<rparr>"
    using st by (auto split: option.splits frame.splits)
  have h: "heap s' = heap s" and c: "\<exists>cs. calls s' = calls s @ cs" unfolding s' by simp_all
  have nt: "t < length (heap s) \<Longrightarrow> node_ok s t" using i unfolding invariant_def by simp
  have ex: "extends s s'" using extends_heap_same[OF h c] .
  have others: "\<And>u. u < length (heap s) \<Longrightarrow> u \<noteq> t \<Longrightarrow> view s' u = view s u"
    unfolding view_def s' calls_of_def by simp
  have self: "node_ok s' t" if t: "t < length (heap s)"
  proof -
    note n = nt[OF t]
    have c: "calls_of s' t = [(t, vs)]"
      using node_ok_AwaitRace(1)[OF n f] unfolding s' calls_of_def by simp
    have "deps_resolved s t vs" unfolding deps_resolved_def using all_ok_Some[OF a] .
    then have dr: "deps_resolved s' t vs" using extends_deps_resolved[OF ex t] by simp
    have "t \<in> awaiting s'" "task_result (heap s' ! t) = None" "frames s' t = Some (AwaitCompute vs)"
      "task_promise (heap s' ! t) = Some Pending"
      using node_ok_frame[OF n f] t unfolding s' by simp_all
    then show ?thesis unfolding node_ok_def using c dr by simp
  qed
  show ?thesis using invariantI[OF i ex others self] ex by simp
qed

lemma step_Settle_inv:
  assumes i: "invariant s" and st: "step (Settle t) s = Some s'"
  shows "invariant s' \<and> extends s s'"
proof -
  obtain r where aw: "t \<in> awaiting s" and p: "task_promise (heap s ! t) = Some (Resolved r)"
    and s': "s' = s\<lparr>heap := (heap s)[t := (heap s ! t)\<lparr>task_result := Some r\<rparr>],
                    awaiting := awaiting s - {t}\<rparr>"
    using st by (auto split: option.splits promise.splits if_splits)
  have h: "heap s' = (heap s)[t := (heap s ! t)\<lparr>task_result := Some r\<rparr>]"
    and c: "\<exists>cs. calls s' = calls s @ cs" unfolding s' by simp_all
  have nt: "t < length (heap s) \<Longrightarrow> node_ok s t" using i unfolding invariant_def by simp
  have ex: "extends s s'"
    using extends_set_result[OF h c] node_ok_awaiting(1,4)[OF nt aw p] by simp
  have others: "\<And>u. u < length (heap s) \<Longrightarrow> u \<noteq> t \<Longrightarrow> view s' u = view s u"
    unfolding view_def s' calls_of_def by simp
  have self: "node_ok s' t" if t: "t < length (heap s)"
  proof -
    note n = nt[OF t]
    have dp: "deps (heap s' ! t) = deps (heap s ! t)" "compute (heap s' ! t) = compute (heap s ! t)"
      unfolding s' using t by simp_all
    have c: "calls_of s' t = calls_of s t" unfolding s' calls_of_def by simp
    have pr: "provenance s t r" using node_ok_awaiting(3)[OF n aw p] .
    have "provenance s' t r"
      using pr extends_deps_resolved[OF ex t] extends_outcome[OF ex] unfolding provenance_def c dp
      by blast
    moreover have "t \<notin> awaiting s'" "task_result (heap s' ! t) = Some r" "frames s' t = None"
      "task_promise (heap s' ! t) = Some (Resolved r)"
      using node_ok_awaiting[OF n aw p] p t unfolding s' by simp_all
    ultimately show ?thesis unfolding node_ok_def by simp
  qed
  show ?thesis using invariantI[OF i ex others self] ex by simp
qed

section \<open>The synchronous part of run\<close>

lemma first_cached_err_Some:
  "first_cached_err h ds = Some r \<Longrightarrow>
     \<not> is_ok r \<and> (\<exists>d \<in> set ds. task_result (h ! d) = Some r)"
proof (induction ds)
  case Nil
  then show ?case by simp
next
  case (Cons d ds)
  then show ?case by (auto split: option.splits result.splits)
qed


lemma first_cached_err_earliest:
  assumes "i < length ds" "task_result (h ! (ds ! i)) = Some (Err e a)"
    and "\<forall>j < i. \<forall>e' a'. task_result (h ! (ds ! j)) \<noteq> Some (Err e' a')"
  shows "first_cached_err h ds = Some (Err e a)"
  using assms
proof (induction ds arbitrary: i)
  case Nil
  then show ?case by simp
next
  case (Cons x xs)
  show ?case
  proof (cases i)
    case 0
    then show ?thesis using Cons.prems(2) by simp
  next
    case (Suc k)
    have x: "\<forall>e' a'. task_result (h ! x) \<noteq> Some (Err e' a')"
      using Cons.prems(3) Suc by auto
    have "first_cached_err h xs = Some (Err e a)"
    proof (rule Cons.IH[of k])
      show "k < length xs" using Cons.prems(1) Suc by simp
      show "task_result (h ! (xs ! k)) = Some (Err e a)" using Cons.prems(2) Suc by simp
      show "\<forall>j < k. \<forall>e' a'. task_result (h ! (xs ! j)) \<noteq> Some (Err e' a')"
        using Cons.prems(3) Suc by auto
    qed
    then show ?thesis using x by (auto split: option.splits result.splits)
  qed
qed

lemma start_node:
  assumes i: "invariant s" and t: "t < length (heap s)"
    and un: "task_promise (heap s ! t) = None"
    and h: "heap s' = (heap s)[t := (heap s ! t)\<lparr>task_promise := Some p\<rparr>]"
    and a: "awaiting s' = insert t (awaiting s)"
    and f: "\<And>u. u \<noteq> t \<Longrightarrow> frames s' u = frames s u"
    and c: "\<And>u. u \<noteq> t \<Longrightarrow> calls_of s' u = calls_of s u"
    and cs: "\<exists>cs. calls s' = calls s @ cs"
    and self: "extends s s' \<Longrightarrow> node_ok s' t"
  shows "invariant s' \<and> extends s s' \<and> (\<forall>u. u \<noteq> t \<longrightarrow> view s' u = view s u) \<and> started s' t"
proof -
  have n: "node_ok s t" using i t unfolding invariant_def by simp
  have e: "extends s s'" using extends_set_promise[OF h cs] node_ok_unstarted(5)[OF n un] by simp
  have v: "\<And>u. u \<noteq> t \<Longrightarrow> view s' u = view s u"
    unfolding view_def using h a f c by simp
  have "invariant s'" using invariantI[OF i e v self[OF e]] by simp
  moreover have "started s' t" unfolding started_def using h t by simp
  ultimately show ?thesis using e v by simp
qed

lemma sequence_inv:
  assumes f: "\<And>d s s'. invariant s \<Longrightarrow> f d s = Some s' \<Longrightarrow>
      invariant s' \<and> extends s s' \<and> (\<forall>u > d. view s' u = view s u) \<and> started s' d"
  shows "invariant s \<Longrightarrow> sequence f ds s = Some s' \<Longrightarrow>
      invariant s' \<and> extends s s' \<and> (\<forall>u. (\<forall>d \<in> set ds. d < u) \<longrightarrow> view s' u = view s u) \<and>
      (\<forall>d \<in> set ds. started s' d)"
proof (induction ds arbitrary: s)
  case Nil
  then show ?case by (simp add: extends_refl)
next
  case (Cons d ds)
  from Cons.prems(2) obtain s1 where s1: "f d s = Some s1" and rest: "sequence f ds s1 = Some s'"
    by (auto split: option.splits)
  have A: "invariant s1" "extends s s1" "\<forall>u > d. view s1 u = view s u" "started s1 d"
    using f[OF Cons.prems(1) s1] by simp_all
  have B: "invariant s'" "extends s1 s'" "\<forall>u. (\<forall>d \<in> set ds. d < u) \<longrightarrow> view s' u = view s1 u"
    "\<forall>d \<in> set ds. started s' d"
    using Cons.IH[OF A(1) rest] by simp_all
  have "extends s s'" using extends_trans[OF A(2) B(2)] .
  moreover have "started s' d" using extends_started[OF B(2) A(4)] .
  moreover have "\<forall>u. (\<forall>x \<in> set (d # ds). x < u) \<longrightarrow> view s' u = view s u"
    using A(3) B(3) by simp
  ultimately show ?case using B(1) B(4) by simp
qed

lemma run_sync_inv:
  "invariant s \<Longrightarrow> run_sync n t s = Some s' \<Longrightarrow>
     invariant s' \<and> extends s s' \<and> (\<forall>u > t. view s' u = view s u) \<and> started s' t"
proof (induction n arbitrary: t s s')
  case 0
  then show ?case by simp
next
  case (Suc n)
  note i = Suc.prems(1)
  have t: "t < length (heap s)" using Suc.prems(2) by (auto split: if_splits)
  have n: "node_ok s t" using i t unfolding invariant_def by simp
  have w: "wf_heap (heap s)" using i unfolding invariant_def by simp
  show ?case
  proof (cases "task_result (heap s ! t) \<noteq> None \<or> task_promise (heap s ! t) \<noteq> None")
    case True
    then have "s' = s" using Suc.prems(2) t by (auto split: if_splits)
    moreover have "started s t"
      using True node_ok_unstarted(1)[OF n] unfolding started_def
      by (cases "task_promise (heap s ! t)") auto
    ultimately show ?thesis using i extends_refl by simp
  next
    case False
    then have un: "task_promise (heap s ! t) = None" and ur: "task_result (heap s ! t) = None"
      by simp_all
    obtain p s1 where ex: "executeTask_sync (run_sync n) t s = Some (p, s1)"
      and s': "s' = s1\<lparr>heap := (heap s1)[t := (heap s1 ! t)\<lparr>task_promise := Some p\<rparr>],
                        awaiting := insert t (awaiting s1)\<rparr>"
      using Suc.prems(2) t un ur by (auto split: option.splits)
    show ?thesis
    proof (cases "deps (heap s ! t) = []")
      case True
      then have p: "p = Pending"
        and s1: "s1 = s\<lparr>frames := (frames s)(t \<mapsto> AwaitCompute []), calls := calls s @ [(t, [])]\<rparr>"
        using ex unfolding executeTask_sync_def by simp_all
      have self: "node_ok s' t"
      proof -
        have "calls_of s' t = [(t, [])]"
          using node_ok_unstarted(4)[OF n un] unfolding s' s1 calls_of_def by simp
        moreover have "deps_resolved s' t []"
          unfolding deps_resolved_def s' s1 using True t by simp
        moreover have "task_promise (heap s' ! t) = Some Pending" "task_result (heap s' ! t) = None"
          "t \<in> awaiting s'" "frames s' t = Some (AwaitCompute [])"
          unfolding s' s1 p using t ur by simp_all
        ultimately show ?thesis unfolding node_ok_def by simp
      qed
      have "invariant s' \<and> extends s s' \<and> (\<forall>u. u \<noteq> t \<longrightarrow> view s' u = view s u) \<and> started s' t"
      proof (rule start_node[OF i t un _ _ _ _ _ self])
        show "heap s' = (heap s)[t := (heap s ! t)\<lparr>task_promise := Some p\<rparr>]" unfolding s' s1 by simp
        show "awaiting s' = insert t (awaiting s)" unfolding s' s1 by simp
        show "\<And>u. u \<noteq> t \<Longrightarrow> frames s' u = frames s u" unfolding s' s1 by simp
        show "\<And>u. u \<noteq> t \<Longrightarrow> calls_of s' u = calls_of s u" unfolding s' s1 calls_of_def by simp
        show "\<exists>cs. calls s' = calls s @ cs" unfolding s' s1 by simp
      qed
      then show ?thesis by simp
    next
      case False
      note nonempty = False
      show ?thesis
      proof (cases "first_cached_err (heap s) (deps (heap s ! t))")
        case (Some r)
        then have p: "p = Resolved r" and s1: "s1 = s"
          using ex nonempty unfolding executeTask_sync_def by simp_all
        obtain d where d: "d \<in> set (deps (heap s ! t))" "task_result (heap s ! d) = Some r"
          and nr: "\<not> is_ok r"
          using first_cached_err_Some[OF Some] by blast
        have self: "node_ok s' t" if e: "extends s s'"
        proof -
          have "outcome s' d = Some r" using extends_outcome[OF e outcome_result[OF d(2)]] .
          moreover have "deps (heap s' ! t) = deps (heap s ! t)" unfolding s' s1 using t by simp
          moreover have "calls_of s' t = []"
            using node_ok_unstarted(4)[OF n un] unfolding s' s1 calls_of_def by simp
          ultimately have "provenance s' t r" unfolding provenance_def using d(1) nr by auto
          moreover have "task_promise (heap s' ! t) = Some (Resolved r)" "task_result (heap s' ! t) = None"
            "t \<in> awaiting s'" "frames s' t = None"
            unfolding s' s1 p using t ur node_ok_unstarted(2)[OF n un] by simp_all
          ultimately show ?thesis unfolding node_ok_def by simp
        qed
        have "invariant s' \<and> extends s s' \<and> (\<forall>u. u \<noteq> t \<longrightarrow> view s' u = view s u) \<and> started s' t"
        proof (rule start_node[OF i t un _ _ _ _ _ self])
          show "heap s' = (heap s)[t := (heap s ! t)\<lparr>task_promise := Some p\<rparr>]" unfolding s' s1 by simp
          show "awaiting s' = insert t (awaiting s)" unfolding s' s1 by simp
          show "\<And>u. u \<noteq> t \<Longrightarrow> frames s' u = frames s u" unfolding s' s1 by simp
          show "\<And>u. u \<noteq> t \<Longrightarrow> calls_of s' u = calls_of s u" unfolding s' s1 calls_of_def by simp
          show "\<exists>cs. calls s' = calls s @ cs" unfolding s' s1 by simp
        qed
        then show ?thesis by simp
      next
        case None
        then obtain s0 where sq: "sequence (run_sync n) (deps (heap s ! t)) s = Some s0"
          and p: "p = Pending" and s1: "s1 = s0\<lparr>frames := (frames s0)(t \<mapsto> AwaitRace)\<rparr>"
          using ex nonempty unfolding executeTask_sync_def by (auto split: option.splits)
        have S: "invariant s0" "extends s s0"
          "\<forall>u. (\<forall>d \<in> set (deps (heap s ! t)). d < u) \<longrightarrow> view s0 u = view s u"
          "\<forall>d \<in> set (deps (heap s ! t)). started s0 d"
          using sequence_inv[where f = "run_sync n", OF Suc.IH i sq] by simp_all
        have below: "\<forall>d \<in> set (deps (heap s ! t)). d < t" using w t unfolding wf_heap_def by simp
        have vt: "view s0 t = view s t" using S(3) below by simp
        have vup: "\<forall>u > t. view s0 u = view s u"
        proof (intro allI impI)
          fix u assume "t < u"
          then have "\<forall>d \<in> set (deps (heap s ! t)). d < u" using below by auto
          then show "view s0 u = view s u" using S(3) by blast
        qed
        have g0: "graph_of (heap s0) = graph_of (heap s)" using extends_graph[OF S(2)] .
        have t0: "t < length (heap s0)" using graph_of_length[OF g0] t by simp
        have d0: "deps (heap s0 ! t) = deps (heap s ! t)" using graph_of_nth(1)[OF g0 t] .
        have un0: "task_promise (heap s0 ! t) = None" "task_result (heap s0 ! t) = None"
          "calls_of s0 t = []"
          using vt un ur node_ok_unstarted(4)[OF n un] unfolding view_def by simp_all
        have self: "node_ok s' t" if e: "extends s0 s'"
        proof -
          have "deps (heap s' ! t) = deps (heap s ! t)" unfolding s' s1 using t0 d0 by simp
          moreover have "\<forall>d \<in> set (deps (heap s ! t)). started s' d"
            using S(4) extends_started[OF e] by simp
          moreover have "calls_of s' t = []" using un0(3) unfolding s' s1 calls_of_def by simp
          moreover have "task_promise (heap s' ! t) = Some Pending" "task_result (heap s' ! t) = None"
            "t \<in> awaiting s'" "frames s' t = Some AwaitRace"
            unfolding s' s1 p using t0 un0 by simp_all
          ultimately show ?thesis unfolding node_ok_def using nonempty by simp
        qed
        have R: "invariant s' \<and> extends s0 s' \<and> (\<forall>u. u \<noteq> t \<longrightarrow> view s' u = view s0 u) \<and> started s' t"
        proof (rule start_node[OF S(1) t0 un0(1) _ _ _ _ _ self])
          show "heap s' = (heap s0)[t := (heap s0 ! t)\<lparr>task_promise := Some p\<rparr>]" unfolding s' s1 by simp
          show "awaiting s' = insert t (awaiting s0)" unfolding s' s1 by simp
          show "\<And>u. u \<noteq> t \<Longrightarrow> frames s' u = frames s0 u" unfolding s' s1 by simp
          show "\<And>u. u \<noteq> t \<Longrightarrow> calls_of s' u = calls_of s0 u" unfolding s' s1 calls_of_def by simp
          show "\<exists>cs. calls s' = calls s0 @ cs" unfolding s' s1 by simp
        qed
        have "extends s s'" using extends_trans[OF S(2)] R by simp
        moreover have "\<forall>u > t. view s' u = view s u" using R vup by simp
        ultimately show ?thesis using R by simp
      qed
    qed
  qed
qed

lemma step_inv:
  assumes "invariant s" "step ev s = Some s'"
  shows "invariant s' \<and> extends s s'"
proof (cases ev)
  case (Run t)
  then show ?thesis using run_sync_inv[OF assms(1)] assms(2) by simp
next
  case (ComputeDone t)
  then show ?thesis using step_ComputeDone_inv assms by simp
next
  case (RaceError t d)
  then show ?thesis using step_RaceError_inv assms by simp
next
  case (RaceSuccess t)
  then show ?thesis using step_RaceSuccess_inv assms by simp
next
  case (Settle t)
  then show ?thesis using step_Settle_inv assms by simp
qed

lemma exec_inv:
  "invariant s \<Longrightarrow> exec evs s = Some s' \<Longrightarrow> invariant s' \<and> extends s s'"
proof (induction evs arbitrary: s)
  case Nil
  then show ?case by (simp add: extends_refl)
next
  case (Cons ev evs)
  then obtain s1 where s1: "step ev s = Some s1" "exec evs s1 = Some s'"
    by (auto split: option.splits)
  have "invariant s1" "extends s s1" using step_inv[OF Cons.prems(1) s1(1)] by simp_all
  then show ?case using Cons.IH[OF _ s1(2)] extends_trans by blast
qed

lemma init_inv:
  assumes "wf_heap h" "fresh h"
  shows "invariant (init h)"
proof -
  have "\<And>t. t < length h \<Longrightarrow> node_ok (init h) t"
    using assms(2) unfolding node_ok_def init_def fresh_def calls_of_def by simp
  then show ?thesis using assms(1) unfolding invariant_def init_def by simp
qed

lemma reachable_inv:
  assumes "wf_heap h" "fresh h" "exec evs (init h) = Some s"
  shows "invariant s" "length (heap s) = length h"
    "\<And>t. t < length h \<Longrightarrow> deps (heap s ! t) = deps (h ! t)"
    "\<And>t. t < length h \<Longrightarrow> compute (heap s ! t) = compute (h ! t)"
    "\<And>t. t < length h \<Longrightarrow> node_ok s t"
proof -
  have e: "invariant s" "extends (init h) s" using exec_inv[OF init_inv[OF assms(1,2)] assms(3)] by simp_all
  have g: "graph_of (heap s) = graph_of h" using extends_graph[OF e(2)] unfolding init_def by simp
  show "invariant s" using e(1) .
  show l: "length (heap s) = length h" using graph_of_length[OF g] .
  show "\<And>t. t < length h \<Longrightarrow> deps (heap s ! t) = deps (h ! t)" using graph_of_nth(1)[OF g] .
  show "\<And>t. t < length h \<Longrightarrow> compute (heap s ! t) = compute (h ! t)" using graph_of_nth(2)[OF g] .
  show "\<And>t. t < length h \<Longrightarrow> node_ok s t" using e(1) l unfolding invariant_def by simp
qed

lemma reachable_graph:
  assumes "wf_heap h" "fresh h" "exec evs (init h) = Some s"
  shows "graph_of (heap s) = graph_of h"
  using extends_graph[of "init h" s] exec_inv[OF init_inv[OF assms(1,2)] assms(3)]
  unfolding init_def by simp

lemma run_settled:
  assumes "t < length (heap s)" "task_result (heap s ! t) \<noteq> None \<or> task_promise (heap s ! t) \<noteq> None"
  shows "step (Run t) s = Some s"
proof -
  obtain n where n: "length (heap s) = Suc n" using assms(1) by (cases "length (heap s)") auto
  have "run_sync (Suc n) t s = Some s" using assms by auto
  then show ?thesis using n by simp
qed

lemma run_short_circuit:
  assumes t: "t < length (heap s)"
    and un: "task_result (heap s ! t) = None" "task_promise (heap s ! t) = None"
    and f: "first_cached_err (heap s) (deps (heap s ! t)) = Some r"
    and ne: "deps (heap s ! t) \<noteq> []"
  shows "step (Run t) s =
     Some (s\<lparr>heap := (heap s)[t := (heap s ! t)\<lparr>task_promise := Some (Resolved r)\<rparr>],
             awaiting := insert t (awaiting s)\<rparr>)"
proof -
  obtain n where n: "length (heap s) = Suc n" using t by (cases "length (heap s)") auto
  have "executeTask_sync (run_sync n) t s = Some (Resolved r, s)"
    unfolding executeTask_sync_def using f ne by simp
  then have "run_sync (Suc n) t s =
     Some (s\<lparr>heap := (heap s)[t := (heap s ! t)\<lparr>task_promise := Some (Resolved r)\<rparr>],
             awaiting := insert t (awaiting s)\<rparr>)"
    using t un by simp
  then show ?thesis using n by simp
qed

lemma outcome_set_promise:
  assumes "t < length (heap s)" "task_result (heap s ! t) = None"
  shows "outcome (s\<lparr>heap := (heap s)[t := (heap s ! t)\<lparr>task_promise := Some (Resolved r)\<rparr>],
             awaiting := A\<rparr>) t = Some r"
  unfolding outcome_def using assms by simp

section \<open>Consequences of the invariant\<close>

lemma started_leaf:
  assumes n: "node_ok s t" and st: "started s t" and l: "deps (heap s ! t) = []"
  shows "calls_of s t = [(t, [])]"
proof -
  obtain p where p: "task_promise (heap s ! t) = Some p" using st unfolding started_def by auto
  show ?thesis
  proof (cases p)
    case Pending
    then obtain f where f: "frames s t = Some f" using node_ok_pending(1)[OF n] p by auto
    show ?thesis
    proof (cases f)
      case (AwaitCompute args)
      then show ?thesis
        using node_ok_AwaitCompute[OF n] f deps_resolved_Nil[OF l] by auto
    next
      case AwaitRace
      then show ?thesis using node_ok_AwaitRace(2)[OF n] f l by simp
    qed
  next
    case (Resolved r)
    then have "provenance s t r" using node_ok_resolved(2)[OF n] p by simp
    then show ?thesis unfolding provenance_def using l deps_resolved_Nil[OF l] by auto
  qed
qed

lemma started_some_dep:
  assumes i: "invariant s" and t: "t < length (heap s)" and st: "started s t"
    and ne: "deps (heap s ! t) \<noteq> []"
  shows "\<exists>d \<in> set (deps (heap s ! t)). started s d"
proof -
  have n: "node_ok s t" using i t unfolding invariant_def by simp
  have w: "\<forall>d \<in> set (deps (heap s ! t)). d < t" using i t unfolding invariant_def wf_heap_def by simp
  have nd: "\<And>d. d \<in> set (deps (heap s ! t)) \<Longrightarrow> node_ok s d"
    using w t i unfolding invariant_def by auto
  obtain d0 where d0: "d0 \<in> set (deps (heap s ! t))" using ne by (cases "deps (heap s ! t)") auto
  have fromdr: "\<And>args. deps_resolved s t args \<Longrightarrow> ?thesis"
    using deps_resolved_outcome[OF _ d0] outcome_started[OF nd[OF d0]] d0 by blast
  obtain p where p: "task_promise (heap s ! t) = Some p" using st unfolding started_def by auto
  show ?thesis
  proof (cases p)
    case Pending
    then obtain f where f: "frames s t = Some f" using node_ok_pending(1)[OF n] p by auto
    show ?thesis
    proof (cases f)
      case (AwaitCompute args)
      then show ?thesis using node_ok_AwaitCompute(2)[OF n] f fromdr by simp
    next
      case AwaitRace
      then show ?thesis using node_ok_AwaitRace(3)[OF n] f d0 by auto
    qed
  next
    case (Resolved r)
    then have "provenance s t r" using node_ok_resolved(2)[OF n] p by simp
    then show ?thesis unfolding provenance_def using fromdr outcome_started nd by blast
  qed
qed

lemma exec_Run_started:
  "invariant s0 \<Longrightarrow> exec evs s0 = Some s \<Longrightarrow> Run d \<in> set evs \<Longrightarrow> started s d"
proof (induction evs arbitrary: s0)
  case Nil
  then show ?case by simp
next
  case (Cons ev evs)
  then obtain s1 where s1: "step ev s0 = Some s1" "exec evs s1 = Some s"
    by (auto split: option.splits)
  have i1: "invariant s1" using step_inv[OF Cons.prems(1) s1(1)] by simp
  show ?case
  proof (cases "ev = Run d")
    case True
    then have "started s1 d" using run_sync_inv[OF Cons.prems(1)] s1(1) by simp
    then show ?thesis using exec_inv[OF i1 s1(2)] extends_started by blast
  next
    case False
    then show ?thesis using Cons.IH[OF i1 s1(2)] Cons.prems(3) by simp
  qed
qed

lemma resolved_calls_stable:
  assumes i: "invariant s" and t: "t < length (heap s)" and o: "outcome s t = Some r"
    and e: "extends s s'" and i': "invariant s'"
  shows "calls_of s' t = calls_of s t"
proof -
  have n: "node_ok s t" using i t unfolding invariant_def by simp
  have t': "t < length (heap s')" using extends_length[OF e] t by simp
  have n': "node_ok s' t" using i' t' unfolding invariant_def by simp
  obtain cs where cs: "calls_of s' t = calls_of s t @ filter (\<lambda>c. fst c = t) cs"
    using extends_calls[OF e] calls_of_append by blast
  have pr: "provenance s t r" using node_ok_outcome(2)[OF n o] .
  have pr': "provenance s' t r" using node_ok_outcome(2)[OF n' extends_outcome[OF e o]] .
  show ?thesis
  proof (cases "calls_of s t = []")
    case False
    then obtain args where "calls_of s t = [(t, args)]" using node_ok_calls[OF n] by auto
    then show ?thesis using cs node_ok_calls[OF n'] by auto
  next
    case True
    then obtain d where d: "d \<in> set (deps (heap s ! t))" "outcome s d = Some r" and nr: "\<not> is_ok r"
      using pr unfolding provenance_def by auto
    have d': "d \<in> set (deps (heap s' ! t))" using d(1) graph_of_nth(1)[OF extends_graph[OF e] t] by simp
    have od': "outcome s' d = Some r" using extends_outcome[OF e d(2)] .
    have "\<And>args. \<not> deps_resolved s' t args"
    proof
      fix args assume "deps_resolved s' t args"
      then obtain v where "outcome s' d = Some (Ok v)" using deps_resolved_outcome d' by blast
      then show False using od' nr by simp
    qed
    then have "calls_of s' t = []" using pr' unfolding provenance_def by auto
    then show ?thesis using True by simp
  qed
qed


section \<open>Every call of run returns, and every started task can settle\<close>

lemma sequence_total:
  fixes s :: "('a, 'e) state"
  assumes f: "\<And>d (s :: ('a, 'e) state). d \<in> set ds \<Longrightarrow> invariant s \<Longrightarrow> length (heap s) = m \<Longrightarrow>
      \<exists>s'. f d s = Some s' \<and> invariant s' \<and> length (heap s') = m"
  shows "invariant s \<Longrightarrow> length (heap s) = m \<Longrightarrow> \<exists>s'. sequence f ds s = Some s'"
  using f
proof (induction ds arbitrary: s)
  case Nil
  then show ?case by simp
next
  case (Cons d ds)
  obtain s1 where s1: "f d s = Some s1" "invariant s1" "length (heap s1) = m"
    using Cons.prems(3)[of d s] Cons.prems(1,2) by auto
  have "\<exists>s'. sequence f ds s1 = Some s'"
    using Cons.IH[OF s1(2,3)] Cons.prems(3) by simp
  then show ?case using s1(1) by simp
qed

lemma run_sync_total:
  fixes s :: "('a, 'e) state"
  shows "invariant s \<Longrightarrow> t < length (heap s) \<Longrightarrow> t < n \<Longrightarrow> \<exists>s'. run_sync n t s = Some s'"
proof (induction n arbitrary: t s)
  case 0
  then show ?case by simp
next
  case (Suc n)
  have below: "\<forall>d \<in> set (deps (heap s ! t)). d < t"
    using Suc.prems(1,2) unfolding invariant_def wf_heap_def by simp
  have "\<exists>s'. sequence (run_sync n) (deps (heap s ! t)) s = Some s'"
  proof (rule sequence_total[where m = "length (heap s)", OF _ Suc.prems(1)])
    fix d and s0 :: "('a, 'e) state"
    assume d: "d \<in> set (deps (heap s ! t))" and i0: "invariant s0"
      and l0: "length (heap s0) = length (heap s)"
    have "d < n" "d < length (heap s0)" using below d Suc.prems(2,3) l0 by auto
    then obtain s' where s': "run_sync n d s0 = Some s'" using Suc.IH[OF i0] by blast
    have "invariant s'" "extends s0 s'" using run_sync_inv[OF i0 s'] by simp_all
    then have "run_sync n d s0 = Some s' \<and> invariant s' \<and> length (heap s') = length (heap s)"
      using s' extends_length[of s0 s'] l0 by simp
    then show "\<exists>s'. run_sync n d s0 = Some s' \<and> invariant s' \<and> length (heap s') = length (heap s)"
      by (intro exI)
  qed simp
  then have "\<exists>x. executeTask_sync (run_sync n) t s = Some x"
    unfolding executeTask_sync_def by (auto split: option.splits)
  then show ?case using Suc.prems(2) by (auto split: option.splits)
qed

lemma step_Run_total:
  assumes "invariant s" "t < length (heap s)"
  shows "\<exists>s'. step (Run t) s = Some s'"
  using run_sync_total[OF assms assms(2)] by simp

lemma step_local:
  assumes "step ev s = Some s'" "\<forall>t. ev \<noteq> Run t" "u \<noteq> node_of ev"
  shows "view s' u = view s u"
proof (cases ev)
  case (Run t)
  then show ?thesis using assms(2) by simp
next
  case (ComputeDone t)
  then obtain r where "s' = resolve t r s" using assms(1)
    by (auto split: option.splits frame.splits)
  then show ?thesis using assms(3) ComputeDone unfolding view_def resolve_def calls_of_def by simp
next
  case (RaceError t d)
  then obtain r where "s' = resolve t r s" using assms(1)
    by (auto split: option.splits frame.splits if_splits result.splits)
  then show ?thesis using assms(3) RaceError unfolding view_def resolve_def calls_of_def by simp
next
  case (RaceSuccess t)
  then obtain vs where "s' = s\<lparr>frames := (frames s)(t \<mapsto> AwaitCompute vs), calls := calls s @ [(t, vs)]\<rparr>"
    using assms(1) by (auto split: option.splits frame.splits)
  then show ?thesis using assms(3) RaceSuccess unfolding view_def calls_of_def by simp
next
  case (Settle t)
  then obtain r where "s' = s\<lparr>heap := (heap s)[t := (heap s ! t)\<lparr>task_result := Some r\<rparr>],
                    awaiting := awaiting s - {t}\<rparr>"
    using assms(1) by (auto split: option.splits promise.splits if_splits)
  then show ?thesis using assms(3) Settle unfolding view_def calls_of_def by simp
qed

lemma exec_append:
  "exec evs s = Some s1 \<Longrightarrow> exec evs' s1 = Some s2 \<Longrightarrow> exec (evs @ evs') s = Some s2"
proof (induction evs arbitrary: s)
  case Nil
  then show ?case by simp
next
  case (Cons ev evs)
  then show ?case by (auto split: option.splits)
qed

lemma all_ok_cases:
  assumes "\<forall>x \<in> set rs. x \<noteq> None"
  shows "(\<exists>vs. all_ok rs = Some vs) \<or> (\<exists>e a. Some (Err e a) \<in> set rs)"
  using assms
proof (induction rs)
  case Nil
  then show ?case by simp
next
  case (Cons x rs)
  then obtain r where x: "x = Some r" by auto
  show ?case
  proof (cases r)
    case (Ok v)
    then show ?thesis using Cons x by (auto split: option.splits)
  next
    case (Err e a)
    then show ?thesis using x by auto
  qed
qed

text \<open>The steps that take a started task to its settled result, once its dependencies are settled.\<close>

lemma finish_resolved:
  assumes i: "invariant s" and t: "t < length (heap s)"
    and p: "task_promise (heap s ! t) = Some (Resolved r)"
  shows "\<exists>evs s'. exec evs s = Some s' \<and> task_result (heap s' ! t) = Some r \<and>
           (\<forall>u. u \<noteq> t \<longrightarrow> view s' u = view s u)"
proof (cases "t \<in> awaiting s")
  case False
  have n: "node_ok s t" using i t unfolding invariant_def by simp
  have "exec [] s = Some s" by simp
  then show ?thesis using node_ok_resolved(4)[OF n p False] by blast
next
  case True
  let ?s' = "s\<lparr>heap := (heap s)[t := (heap s ! t)\<lparr>task_result := Some r\<rparr>],
                    awaiting := awaiting s - {t}\<rparr>"
  have st: "step (Settle t) s = Some ?s'" using True p by simp
  have "exec [Settle t] s = Some ?s'" using st by simp
  moreover have "task_result (heap ?s' ! t) = Some r" using t by simp
  moreover have "\<forall>u. u \<noteq> t \<longrightarrow> view ?s' u = view s u"
    using step_local[OF st] by simp
  ultimately show ?thesis by blast
qed

lemma finish_computing:
  assumes i: "invariant s" and t: "t < length (heap s)"
    and f: "frames s t = Some (AwaitCompute args)"
  shows "\<exists>evs s'. exec evs s = Some s' \<and> task_result (heap s' ! t) = Some (compute (heap s ! t) args) \<and>
           (\<forall>u. u \<noteq> t \<longrightarrow> view s' u = view s u)"
proof -
  let ?r = "compute (heap s ! t) args"
  have st: "step (ComputeDone t) s = Some (resolve t ?r s)" using f by simp
  have i1: "invariant (resolve t ?r s)" using step_ComputeDone_inv[OF i st] by simp
  have t1: "t < length (heap (resolve t ?r s))" using t unfolding resolve_def by simp
  have p1: "task_promise (heap (resolve t ?r s) ! t) = Some (Resolved ?r)"
    using t unfolding resolve_def by simp
  obtain evs s' where e: "exec evs (resolve t ?r s) = Some s'" "task_result (heap s' ! t) = Some ?r"
    "\<forall>u. u \<noteq> t \<longrightarrow> view s' u = view (resolve t ?r s) u"
    using finish_resolved[OF i1 t1 p1] by blast
  have "exec ([ComputeDone t] @ evs) s = Some s'"
    using exec_append[of "[ComputeDone t]" s "resolve t ?r s" evs s'] st e(1) by simp
  moreover have "\<forall>u. u \<noteq> t \<longrightarrow> view s' u = view s u"
    using e(3) step_local[OF st] by simp
  ultimately show ?thesis using e(2) by blast
qed

lemma finish_racing:
  assumes i: "invariant s" and t: "t < length (heap s)"
    and f: "frames s t = Some AwaitRace"
    and ds: "\<forall>d \<in> set (deps (heap s ! t)). outcome s d \<noteq> None"
  shows "\<exists>evs s'. exec evs s = Some s' \<and> task_result (heap s' ! t) \<noteq> None \<and>
           (\<forall>u. u \<noteq> t \<longrightarrow> view s' u = view s u)"
proof -
  have "\<forall>x \<in> set (map (outcome s) (deps (heap s ! t))). x \<noteq> None" using ds by simp
  then consider vs where "all_ok (map (outcome s) (deps (heap s ! t))) = Some vs"
    | e a where "Some (Err e a) \<in> set (map (outcome s) (deps (heap s ! t)))"
    using all_ok_cases by blast
  then show ?thesis
  proof cases
    case 1
    let ?s1 = "s\<lparr>frames := (frames s)(t \<mapsto> AwaitCompute vs), calls := calls s @ [(t, vs)]\<rparr>"
    have st: "step (RaceSuccess t) s = Some ?s1" using f 1 by simp
    have i1: "invariant ?s1" using step_RaceSuccess_inv[OF i st] by simp
    have t1: "t < length (heap ?s1)" using t by simp
    have f1: "frames ?s1 t = Some (AwaitCompute vs)" by simp
    obtain evs s' where e: "exec evs ?s1 = Some s'" "task_result (heap s' ! t) \<noteq> None"
      "\<forall>u. u \<noteq> t \<longrightarrow> view s' u = view ?s1 u"
      using finish_computing[OF i1 t1 f1] by blast
    have "exec ([RaceSuccess t] @ evs) s = Some s'"
      using exec_append[of "[RaceSuccess t]" s ?s1 evs s'] st e(1) by simp
    moreover have "\<forall>u. u \<noteq> t \<longrightarrow> view s' u = view s u"
      using e(3) step_local[OF st] by simp
    ultimately show ?thesis using e(2) by blast
  next
    case 2
    then obtain d where d: "d \<in> set (deps (heap s ! t))" "outcome s d = Some (Err e a)" by auto
    let ?s1 = "resolve t (Err e a) s"
    have st: "step (RaceError t d) s = Some ?s1" using f d by simp
    have i1: "invariant ?s1" using step_RaceError_inv[OF i st] by simp
    have t1: "t < length (heap ?s1)" using t unfolding resolve_def by simp
    have p1: "task_promise (heap ?s1 ! t) = Some (Resolved (Err e a))"
      using t unfolding resolve_def by simp
    obtain evs s' where e: "exec evs ?s1 = Some s'" "task_result (heap s' ! t) = Some (Err e a)"
      "\<forall>u. u \<noteq> t \<longrightarrow> view s' u = view ?s1 u"
      using finish_resolved[OF i1 t1 p1] by blast
    have "exec ([RaceError t d] @ evs) s = Some s'"
      using exec_append[of "[RaceError t d]" s ?s1 evs s'] st e(1) by simp
    moreover have "\<forall>u. u \<noteq> t \<longrightarrow> view s' u = view s u"
      using e(3) step_local[OF st] by simp
    ultimately show ?thesis using e(2) by blast
  qed
qed

lemma settle_all:
  fixes s :: "('a, 'e) state"
  assumes one: "\<And>d (s :: ('a, 'e) state). d \<in> set ds \<Longrightarrow> invariant s \<Longrightarrow> length (heap s) = m \<Longrightarrow>
      \<exists>evs s'. exec evs s = Some s' \<and> task_result (heap s' ! d) \<noteq> None \<and>
        (\<forall>u > d. view s' u = view s u)"
  shows "invariant s \<Longrightarrow> length (heap s) = m \<Longrightarrow>
      \<exists>evs s'. exec evs s = Some s' \<and> (\<forall>d \<in> set ds. task_result (heap s' ! d) \<noteq> None) \<and>
        (\<forall>u. (\<forall>d \<in> set ds. d < u) \<longrightarrow> view s' u = view s u)"
  using one
proof (induction ds arbitrary: s)
  case Nil
  have "exec [] s = Some s \<and> (\<forall>d \<in> set []. task_result (heap s ! d) \<noteq> None) \<and>
        (\<forall>u. (\<forall>d \<in> set []. d < u) \<longrightarrow> view s u = view s u)" by simp
  then show ?case by (intro exI)
next
  case (Cons d ds)
  obtain evs1 s1 where s1: "exec evs1 s = Some s1" "task_result (heap s1 ! d) \<noteq> None"
    "\<forall>u > d. view s1 u = view s u"
    using Cons.prems(3)[of d s] Cons.prems(1,2) by auto
  have E1: "invariant s1" "extends s s1" using exec_inv[OF Cons.prems(1) s1(1)] by simp_all
  have l1: "length (heap s1) = m" using extends_length[OF E1(2)] Cons.prems(2) by simp
  obtain evs2 s2 where s2: "exec evs2 s1 = Some s2" "\<forall>x \<in> set ds. task_result (heap s2 ! x) \<noteq> None"
    "\<forall>u. (\<forall>x \<in> set ds. x < u) \<longrightarrow> view s2 u = view s1 u"
    using Cons.IH[OF E1(1) l1] Cons.prems(3) by auto
  have E2: "extends s1 s2" using exec_inv[OF E1(1) s2(1)] by simp
  have "task_result (heap s2 ! d) \<noteq> None" using s1(2) extends_result[OF E2] by auto
  then have "\<forall>x \<in> set (d # ds). task_result (heap s2 ! x) \<noteq> None" using s2(2) by simp
  moreover have "exec (evs1 @ evs2) s = Some s2" using exec_append[OF s1(1) s2(1)] .
  moreover have "\<forall>u. (\<forall>x \<in> set (d # ds). x < u) \<longrightarrow> view s2 u = view s u"
    using s1(3) s2(3) by simp
  ultimately have "exec (evs1 @ evs2) s = Some s2 \<and>
      (\<forall>x \<in> set (d # ds). task_result (heap s2 ! x) \<noteq> None) \<and>
      (\<forall>u. (\<forall>x \<in> set (d # ds). x < u) \<longrightarrow> view s2 u = view s u)" by simp
  then show ?case by (intro exI)
qed

lemma can_settle:
  fixes s :: "('a, 'e) state"
  shows "invariant s \<Longrightarrow> t < length (heap s) \<Longrightarrow>
     \<exists>evs s'. exec evs s = Some s' \<and> task_result (heap s' ! t) \<noteq> None \<and>
       (\<forall>u > t. view s' u = view s u)"
proof (induction t arbitrary: s rule: less_induct)
  case (less t)
  obtain s0 where s0: "step (Run t) s = Some s0" using step_Run_total[OF less.prems] by blast
  have R: "invariant s0" "extends s s0" "\<forall>u > t. view s0 u = view s u" "started s0 t"
    using run_sync_inv[OF less.prems(1)] s0 by simp_all
  have t0: "t < length (heap s0)" using extends_length[OF R(2)] less.prems(2) by simp
  have n0: "node_ok s0 t" using R(1) t0 unfolding invariant_def by simp
  have below: "\<forall>d \<in> set (deps (heap s0 ! t)). d < t"
    using R(1) t0 unfolding invariant_def wf_heap_def by simp
  have "\<exists>evs s'. exec evs s0 = Some s' \<and> task_result (heap s' ! t) \<noteq> None \<and>
       (\<forall>u > t. view s' u = view s0 u)"
  proof -
    obtain p where p: "task_promise (heap s0 ! t) = Some p" using R(4) unfolding started_def by auto
    show ?thesis
    proof (cases p)
      case (Resolved r)
      obtain evs s' where "exec evs s0 = Some s'" "task_result (heap s' ! t) = Some r"
        "\<forall>u. u \<noteq> t \<longrightarrow> view s' u = view s0 u"
        using finish_resolved[OF R(1) t0, of r] p Resolved by blast
      then have "exec evs s0 = Some s' \<and> task_result (heap s' ! t) \<noteq> None \<and>
          (\<forall>u > t. view s' u = view s0 u)" by simp
      then show ?thesis by (intro exI)
    next
      case Pending
      then obtain f where f: "frames s0 t = Some f" using node_ok_pending(1)[OF n0] p by auto
      show ?thesis
      proof (cases f)
        case (AwaitCompute args)
        obtain evs s' where "exec evs s0 = Some s'"
          "task_result (heap s' ! t) = Some (compute (heap s0 ! t) args)"
          "\<forall>u. u \<noteq> t \<longrightarrow> view s' u = view s0 u"
          using finish_computing[OF R(1) t0, of args] f AwaitCompute by blast
        then have "exec evs s0 = Some s' \<and> task_result (heap s' ! t) \<noteq> None \<and>
            (\<forall>u > t. view s' u = view s0 u)" by simp
        then show ?thesis by (intro exI)
      next
        case AwaitRace
        have "\<exists>evs s'. exec evs s0 = Some s' \<and>
            (\<forall>d \<in> set (deps (heap s0 ! t)). task_result (heap s' ! d) \<noteq> None) \<and>
            (\<forall>u. (\<forall>d \<in> set (deps (heap s0 ! t)). d < u) \<longrightarrow> view s' u = view s0 u)"
        proof (rule settle_all[where m = "length (heap s0)", OF _ R(1)])
          fix d and sa :: "('a, 'e) state"
          assume "d \<in> set (deps (heap s0 ! t))" "invariant sa" "length (heap sa) = length (heap s0)"
          then show "\<exists>evs s'. exec evs sa = Some s' \<and> task_result (heap s' ! d) \<noteq> None \<and>
              (\<forall>u > d. view s' u = view sa u)"
            using less.IH[of d sa] below t0 by auto
        qed simp
        then obtain evs1 s1 where s1: "exec evs1 s0 = Some s1"
          "\<forall>d \<in> set (deps (heap s0 ! t)). task_result (heap s1 ! d) \<noteq> None"
          "\<forall>u. (\<forall>d \<in> set (deps (heap s0 ! t)). d < u) \<longrightarrow> view s1 u = view s0 u"
          by blast
        have E1: "invariant s1" "extends s0 s1" using exec_inv[OF R(1) s1(1)] by simp_all
        have t1: "t < length (heap s1)" using extends_length[OF E1(2)] t0 by simp
        have d1: "deps (heap s1 ! t) = deps (heap s0 ! t)"
          using graph_of_nth(1)[OF extends_graph[OF E1(2)] t0] .
        have v1: "\<forall>u \<ge> t. view s1 u = view s0 u"
        proof (intro allI impI)
          fix u assume "t \<le> u"
          then have "\<forall>d \<in> set (deps (heap s0 ! t)). d < u" using below by auto
          then show "view s1 u = view s0 u" using s1(3) by blast
        qed
        have f1: "frames s1 t = Some AwaitRace" using v1 f AwaitRace unfolding view_def by auto
        have o1: "\<forall>d \<in> set (deps (heap s1 ! t)). outcome s1 d \<noteq> None"
        proof
          fix d assume "d \<in> set (deps (heap s1 ! t))"
          then obtain r where "task_result (heap s1 ! d) = Some r" using s1(2) d1 by auto
          then show "outcome s1 d \<noteq> None" using outcome_result[of s1 d r] by simp
        qed
        obtain evs2 s2 where s2: "exec evs2 s1 = Some s2" "task_result (heap s2 ! t) \<noteq> None"
          "\<forall>u. u \<noteq> t \<longrightarrow> view s2 u = view s1 u"
          using finish_racing[OF E1(1) t1 f1 o1] by blast
        have "exec (evs1 @ evs2) s0 = Some s2" using exec_append[OF s1(1) s2(1)] .
        moreover have "\<forall>u > t. view s2 u = view s0 u" using s2(3) v1 by simp
        ultimately show ?thesis using s2(2) by blast
      qed
    qed
  qed
  then obtain evs s' where e: "exec evs s0 = Some s'" "task_result (heap s' ! t) \<noteq> None"
    "\<forall>u > t. view s' u = view s0 u" by blast
  have "exec ([Run t] @ evs) s = Some s'"
    using exec_append[of "[Run t]" s s0 evs s'] s0 e(1) by simp
  moreover have "\<forall>u > t. view s' u = view s u" using e(3) R(3) by simp
  ultimately show ?case using e(2) by blast
qed

section \<open>Where a result comes from\<close>


lemma ok_all_computed:
  fixes s :: "('a, 'e) state"
  assumes i: "invariant s" and re: "reaches (heap s) t a"
  shows "t < length (heap s) \<Longrightarrow> outcome s t = Some (Ok v) \<Longrightarrow>
     a < length (heap s) \<and> (\<exists>args w. calls_of s a = [(a, args)] \<and> compute (heap s ! a) args = Ok w \<and>
        outcome s a = Some (Ok w))"
  using re
proof (induction arbitrary: v rule: reaches.induct)
  case (self t)
  have n: "node_ok s t" using i self.prems(1) unfolding invariant_def by simp
  have pr: "provenance s t (Ok v)" using node_ok_outcome(2)[OF n self.prems(2)] .
  then obtain args where "calls_of s t = [(t, args)]" "compute (heap s ! t) args = Ok v"
    unfolding provenance_def by auto
  then show ?case using self.prems by auto
next
  case (dep d t a)
  have n: "node_ok s t" using i dep.prems(1) unfolding invariant_def by simp
  have pr: "provenance s t (Ok v)" using node_ok_outcome(2)[OF n dep.prems(2)] .
  then obtain args where "deps_resolved s t args" unfolding provenance_def by auto
  then obtain w where w: "outcome s d = Some (Ok w)" using deps_resolved_outcome dep.hyps(1) by blast
  have "d < t" using i dep.prems(1) dep.hyps(1) unfolding invariant_def wf_heap_def by simp
  then have "d < length (heap s)" using dep.prems(1) by simp
  then show ?case using dep.IH[OF _ w] by simp
qed


lemma reaches_graph':
  assumes g: "graph_of h' = graph_of h" and w: "wf_heap h"
  shows "reaches h t a \<Longrightarrow> t < length h \<Longrightarrow> reaches h' t a"
proof (induction rule: reaches.induct)
  case (self t)
  show ?case by (rule reaches.self)
next
  case (dep d t a)
  have dd: "d \<in> set (deps (h' ! t))" using dep.hyps(1) graph_of_nth(1)[OF g dep.prems] by simp
  have "d < length h" using w dep.prems dep.hyps(1) unfolding wf_heap_def by fastforce
  then show ?case using reaches.dep[OF dd] dep.IH by simp
qed

section \<open>The traversal of getTrace\<close>

lemma reaches_le:
  assumes w: "wf_heap h"
  shows "reaches h t a \<Longrightarrow> t < length h \<Longrightarrow> a \<le> t"
proof (induction rule: reaches.induct)
  case (self t)
  show ?case by simp
next
  case (dep d t a)
  have "d < t" using w dep.prems dep.hyps(1) unfolding wf_heap_def by simp
  then show ?case using dep.IH dep.prems by simp
qed

lemma reaches_unfold:
  "{a. reaches h t a} = insert t (\<Union>d \<in> set (deps (h ! t)). {a. reaches h d a})"
proof (intro set_eqI iffI)
  fix a assume "a \<in> {a. reaches h t a}"
  then have "reaches h t a" by simp
  then show "a \<in> insert t (\<Union>d \<in> set (deps (h ! t)). {a. reaches h d a})"
    by (cases rule: reaches.cases) auto
next
  fix a assume "a \<in> insert t (\<Union>d \<in> set (deps (h ! t)). {a. reaches h d a})"
  then show "a \<in> {a. reaches h t a}" using reaches.self reaches.dep by auto
qed

lemma topo_closed:
  assumes tp: "topo h ns"
  shows "reaches h x a \<Longrightarrow> x \<in> set ns \<Longrightarrow> a \<in> set ns"
proof (induction rule: reaches.induct)
  case (self t)
  then show ?case by simp
next
  case (dep d t a)
  obtain i where i: "i < length ns" "ns ! i = t" using dep.prems by (auto simp: in_set_conv_nth)
  have "d \<in> set (take i ns)" using tp i dep.hyps(1) unfolding topo_def by blast
  then have "d \<in> set ns" by (rule in_set_takeD)
  then show ?case using dep.IH by simp
qed

lemma topo_append:
  assumes "topo h ns" "\<forall>d \<in> set (deps (h ! t)). d \<in> set ns"
  shows "topo h (ns @ [t])"
  unfolding topo_def
proof (intro allI impI ballI)
  fix i d assume i: "i < length (ns @ [t])" and d: "d \<in> set (deps (h ! ((ns @ [t]) ! i)))"
  show "d \<in> set (take i (ns @ [t]))"
  proof (cases "i < length ns")
    case True
    then have "d \<in> set (take i ns)" using assms(1) d unfolding topo_def by (simp add: nth_append)
    then show ?thesis using True by simp
  next
    case False
    then have "i = length ns" using i by simp
    then show ?thesis using assms(2) d by simp
  qed
qed

text \<open>What one call of \<open>traverse\<close>, or the loop over a list of dependencies, achieves.\<close>

lemma traverse_loop:
  fixes h :: "('a, 'e) task list"
  assumes one: "\<And>d V ns. d \<in> set ds \<Longrightarrow> visit_ok h (Suc d) V ns \<Longrightarrow>
      \<exists>ms. f d (V, labels_of h ns) = Some (V \<union> set ms, labels_of h (ns @ ms)) \<and>
        visit_ok h (Suc d) (V \<union> set ms) (ns @ ms) \<and>
        set (ns @ ms) = set ns \<union> {a. reaches h d a}"
    and below: "\<forall>d \<in> set ds. d < b"
  shows "visit_ok h b V ns \<Longrightarrow>
      \<exists>ms. sequence f ds (V, labels_of h ns) = Some (V \<union> set ms, labels_of h (ns @ ms)) \<and>
        visit_ok h b (V \<union> set ms) (ns @ ms) \<and>
        set (ns @ ms) = set ns \<union> (\<Union>d \<in> set ds. {a. reaches h d a})"
  using one below
proof (induction ds arbitrary: V ns)
  case Nil
  have "sequence f [] (V, labels_of h ns) = Some (V \<union> set [], labels_of h (ns @ [])) \<and>
        visit_ok h b (V \<union> set []) (ns @ []) \<and>
        set (ns @ []) = set ns \<union> (\<Union>d \<in> set []. {a. reaches h d a})"
    using Nil.prems(1) by simp
  then show ?case by (intro exI)
next
  case (Cons d ds)
  have db: "d < b" using Cons.prems(3) by simp
  have v1: "visit_ok h (Suc d) V ns" using Cons.prems(1) db unfolding visit_ok_def by auto
  obtain ms1 where m1: "f d (V, labels_of h ns) = Some (V \<union> set ms1, labels_of h (ns @ ms1))"
    "visit_ok h (Suc d) (V \<union> set ms1) (ns @ ms1)"
    "set (ns @ ms1) = set ns \<union> {a. reaches h d a}"
    using Cons.prems(2)[of d V ns] v1 by auto
  have v2: "visit_ok h b (V \<union> set ms1) (ns @ ms1)"
    using Cons.prems(1) m1(2) unfolding visit_ok_def by auto
  obtain ms2 where m2: "sequence f ds (V \<union> set ms1, labels_of h (ns @ ms1)) =
      Some (V \<union> set ms1 \<union> set ms2, labels_of h ((ns @ ms1) @ ms2))"
    "visit_ok h b (V \<union> set ms1 \<union> set ms2) ((ns @ ms1) @ ms2)"
    "set ((ns @ ms1) @ ms2) = set (ns @ ms1) \<union> (\<Union>d \<in> set ds. {a. reaches h d a})"
    using Cons.IH[OF v2] Cons.prems(2,3) by auto
  have "sequence f (d # ds) (V, labels_of h ns) =
      Some (V \<union> set (ms1 @ ms2), labels_of h (ns @ (ms1 @ ms2)))"
    using m1(1) m2(1) by (simp add: Un_assoc)
  moreover have "visit_ok h b (V \<union> set (ms1 @ ms2)) (ns @ (ms1 @ ms2))"
    using m2(2) by (simp add: Un_assoc)
  moreover have "set (ns @ (ms1 @ ms2)) = set ns \<union> (\<Union>x \<in> set (d # ds). {a. reaches h x a})"
    using m2(3) m1(3) by auto
  ultimately show ?case by blast
qed

lemma traverse_visits:
  fixes h :: "('a, 'e) task list"
  assumes w: "wf_heap h"
  shows "t < length h \<Longrightarrow> t < n \<Longrightarrow> visit_ok h (Suc t) V ns \<Longrightarrow>
      \<exists>ms. traverse n h t (V, labels_of h ns) = Some (V \<union> set ms, labels_of h (ns @ ms)) \<and>
        visit_ok h (Suc t) (V \<union> set ms) (ns @ ms) \<and>
        set (ns @ ms) = set ns \<union> {a. reaches h t a} \<and>
        (t \<notin> V \<longrightarrow> ms \<noteq> [] \<and> last ms = t)"
proof (induction n arbitrary: t V ns)
  case 0
  then show ?case by simp
next
  case (Suc n)
  have id: "task_id (h ! t) = t" using w Suc.prems(1) unfolding wf_heap_def by simp
  have below: "\<forall>d \<in> set (deps (h ! t)). d < t" using w Suc.prems(1) unfolding wf_heap_def by simp
  note v = Suc.prems(3)
  show ?case
  proof (cases "t \<in> V")
    case True
    then have tn: "t \<in> set ns" using v unfolding visit_ok_def by auto
    have tp: "topo h ns" using v unfolding visit_ok_def by simp
    have "{a. reaches h t a} \<subseteq> set ns" using topo_closed[OF tp _ tn] by auto
    then have "traverse (Suc n) h t (V, labels_of h ns) = Some (V \<union> set [], labels_of h (ns @ [])) \<and>
        visit_ok h (Suc t) (V \<union> set []) (ns @ []) \<and>
        set (ns @ []) = set ns \<union> {a. reaches h t a} \<and>
        (t \<notin> V \<longrightarrow> [] \<noteq> [] \<and> last [] = t)"
      using True id v by auto
    then show ?thesis by (intro exI)
  next
    case False
    have v1: "visit_ok h t (insert t V) ns" using v False unfolding visit_ok_def by auto
    have "\<exists>ms. sequence (traverse n h) (deps (h ! t)) (insert t V, labels_of h ns) =
          Some (insert t V \<union> set ms, labels_of h (ns @ ms)) \<and>
        visit_ok h t (insert t V \<union> set ms) (ns @ ms) \<and>
        set (ns @ ms) = set ns \<union> (\<Union>d \<in> set (deps (h ! t)). {a. reaches h d a})"
    proof (rule traverse_loop[OF _ below v1])
      fix d V' ns'
      assume d: "d \<in> set (deps (h ! t))" and v': "visit_ok h (Suc d) V' ns'"
      have "d < length h" "d < n" using below d Suc.prems(1,2) by auto
      then show "\<exists>ms. traverse n h d (V', labels_of h ns') =
            Some (V' \<union> set ms, labels_of h (ns' @ ms)) \<and>
          visit_ok h (Suc d) (V' \<union> set ms) (ns' @ ms) \<and>
          set (ns' @ ms) = set ns' \<union> {a. reaches h d a}"
        using Suc.IH[OF _ _ v'] by blast
    qed
    then obtain ms where m: "sequence (traverse n h) (deps (h ! t)) (insert t V, labels_of h ns) =
          Some (insert t V \<union> set ms, labels_of h (ns @ ms))"
      "visit_ok h t (insert t V \<union> set ms) (ns @ ms)"
      "set (ns @ ms) = set ns \<union> (\<Union>d \<in> set (deps (h ! t)). {a. reaches h d a})"
      by blast
    have r: "traverse (Suc n) h t (V, labels_of h ns) =
        Some (V \<union> set (ms @ [t]), labels_of h (ns @ (ms @ [t])))"
      using False id m(1) unfolding labels_of_def by simp
    have small: "\<forall>x \<in> (\<Union>d \<in> set (deps (h ! t)). {a. reaches h d a}). x < t"
    proof
      fix x assume "x \<in> (\<Union>d \<in> set (deps (h ! t)). {a. reaches h d a})"
      then obtain d where d: "d \<in> set (deps (h ! t))" "reaches h d x" by auto
      have "d < t" using below d(1) by simp
      moreover have "x \<le> d" using reaches_le[OF w d(2)] \<open>d < t\<close> Suc.prems(1) by simp
      ultimately show "x < t" by simp
    qed
    have tns: "t \<notin> set ns" using v False unfolding visit_ok_def by auto
    have tnm: "t \<notin> set (ns @ ms)" using m(3) tns small by auto
    have depsin: "\<forall>d \<in> set (deps (h ! t)). d \<in> set (ns @ ms)"
      using m(3) reaches.self by auto
    have tp: "topo h ((ns @ ms) @ [t])"
      using topo_append[OF _ depsin] m(2) unfolding visit_ok_def by simp
    have di: "distinct ((ns @ ms) @ [t])" using m(2) tnm unfolding visit_ok_def by simp
    have sub: "set ((ns @ ms) @ [t]) \<subseteq> V \<union> set (ms @ [t])" using m(2) unfolding visit_ok_def by auto
    have cov: "\<forall>x \<in> V \<union> set (ms @ [t]). x < Suc t \<longrightarrow> x \<in> set ((ns @ ms) @ [t])"
    proof (intro ballI impI)
      fix x assume x: "x \<in> V \<union> set (ms @ [t])" "x < Suc t"
      show "x \<in> set ((ns @ ms) @ [t])"
      proof (cases "x = t")
        case True
        then show ?thesis by simp
      next
        case False
        then have "x < t" "x \<in> insert t V \<union> set ms" using x by auto
        then have "x \<in> set (ns @ ms)" using m(2) unfolding visit_ok_def by blast
        then show ?thesis by simp
      qed
    qed
    have vo: "visit_ok h (Suc t) (V \<union> set (ms @ [t])) (ns @ (ms @ [t]))"
      unfolding visit_ok_def using sub cov di tp by simp
    have st: "set (ns @ (ms @ [t])) = set ns \<union> {a. reaches h t a}"
      using m(3) reaches_unfold[of h t] by auto
    have "traverse (Suc n) h t (V, labels_of h ns) =
          Some (V \<union> set (ms @ [t]), labels_of h (ns @ (ms @ [t]))) \<and>
        visit_ok h (Suc t) (V \<union> set (ms @ [t])) (ns @ (ms @ [t])) \<and>
        set (ns @ (ms @ [t])) = set ns \<union> {a. reaches h t a} \<and>
        (t \<notin> V \<longrightarrow> ms @ [t] \<noteq> [] \<and> last (ms @ [t]) = t)"
      using r vo st by simp
    then show ?thesis by (intro exI)
  qed
qed

text \<open>
  The traversal ends on every closed heap, cyclic or not: each call that goes on marks a
  node that was not visited before.
\<close>

lemma sequence_grows:
  assumes "\<And>d vp vp'. d \<in> set ds \<Longrightarrow> f d vp = Some vp' \<Longrightarrow> fst vp \<subseteq> fst vp'"
  shows "sequence f ds vp = Some vp' \<Longrightarrow> fst vp \<subseteq> fst vp'"
  using assms
proof (induction ds arbitrary: vp)
  case Nil
  then show ?case by simp
next
  case (Cons d ds)
  obtain vp1 where 1: "f d vp = Some vp1" "sequence f ds vp1 = Some vp'"
    using Cons.prems(1) by (auto split: option.splits)
  have "fst vp \<subseteq> fst vp1" using Cons.prems(2)[of d vp vp1] 1(1) by simp
  moreover have "fst vp1 \<subseteq> fst vp'"
  proof (rule Cons.IH[OF 1(2)])
    fix x wp wp' assume "x \<in> set ds" "f x wp = Some wp'"
    then show "fst wp \<subseteq> fst wp'" using Cons.prems(2)[of x wp wp'] by simp
  qed
  ultimately show ?case by simp
qed

lemma traverse_grows: "traverse n h t vp = Some vp' \<Longrightarrow> fst vp \<subseteq> fst vp'"
proof (induction n arbitrary: t vp vp')
  case 0
  then show ?case by (simp split: if_splits)
next
  case (Suc n)
  show ?case
  proof (cases "task_id (h ! t) \<in> fst vp")
    case True
    then show ?thesis using Suc.prems by simp
  next
    case False
    then obtain vp1 where 1: "sequence (traverse n h) (deps (h ! t))
        (insert (task_id (h ! t)) (fst vp), snd vp) = Some vp1" "vp' = (fst vp1, snd vp1 @ [label (h ! t)])"
      using Suc.prems by (auto split: option.splits)
    have "fst (insert (task_id (h ! t)) (fst vp), snd vp) \<subseteq> fst vp1"
      using sequence_grows[OF _ 1(1)] Suc.IH by blast
    then show ?thesis using 1(2) by auto
  qed
qed

lemma unvisited_mono: "V \<subseteq> W \<Longrightarrow> unvisited h W \<le> unvisited h V"
  unfolding unvisited_def by (intro card_mono) auto

lemma unvisited_insert:
  assumes "t < length h" "task_id (h ! t) \<notin> V"
  shows "unvisited h (insert (task_id (h ! t)) V) < unvisited h V"
proof -
  have "task_id (h ! t) \<in> task_id ` set h - V" using assms by simp
  moreover have "task_id ` set h - insert (task_id (h ! t)) V = (task_id ` set h - V) - {task_id (h ! t)}"
    by auto
  ultimately show ?thesis unfolding unvisited_def
    using card_Diff1_less[of "task_id ` set h - V" "task_id (h ! t)"] by simp
qed

lemma traverse_total:
  fixes h :: "('a, 'e) task list"
  assumes c: "closed h"
  shows "t < length h \<Longrightarrow> unvisited h V \<le> n \<Longrightarrow> \<exists>vp'. traverse n h t (V, p) = Some vp'"
proof (induction n arbitrary: t V p)
  case 0
  then have "task_id ` set h - V = {}" unfolding unvisited_def by simp
  then have "task_id (h ! t) \<in> V" using 0(1) by auto
  then show ?case by simp
next
  case (Suc n)
  show ?case
  proof (cases "task_id (h ! t) \<in> V")
    case True
    then show ?thesis by simp
  next
    case False
    have below: "\<forall>d \<in> set (deps (h ! t)). d < length h" using c Suc.prems(1) unfolding closed_def by simp
    have u: "unvisited h (insert (task_id (h ! t)) V) \<le> n"
      using unvisited_insert[OF Suc.prems(1) False] Suc.prems(2) by simp
    have loop: "\<forall>d \<in> set ds. d < length h \<Longrightarrow> unvisited h W \<le> n \<Longrightarrow>
        \<exists>vp'. sequence (traverse n h) ds (W, q) = Some vp'" for ds W q
    proof (induction ds arbitrary: W q)
      case Nil
      then show ?case by simp
    next
      case (Cons d ds)
      obtain vp1 where 1: "traverse n h d (W, q) = Some vp1"
        using Suc.IH[of d W q] Cons.prems by auto
      have "W \<subseteq> fst vp1" using traverse_grows[OF 1] by simp
      then have "unvisited h (fst vp1) \<le> n" using unvisited_mono[of W "fst vp1" h] Cons.prems(2) by simp
      then obtain vp2 where "sequence (traverse n h) ds (fst vp1, snd vp1) = Some vp2"
        using Cons.IH[of "fst vp1" "snd vp1"] Cons.prems(1) by auto
      then show ?case using 1 by simp
    qed
    obtain vp1 where "sequence (traverse n h) (deps (h ! t)) (insert (task_id (h ! t)) V, p) = Some vp1"
      using loop[OF below u] by blast
    then show ?thesis using False by simp
  qed
qed

lemma getTrace_total:
  assumes "closed h" "t < length h"
  shows "getTrace h t \<noteq> None"
proof -
  have "card (task_id ` set h) \<le> card (set h)" by (rule card_image_le) simp
  then have "unvisited h {} \<le> length h" unfolding unvisited_def using card_length[of h] by simp
  then obtain vp' where "traverse (length h) h t ({}, []) = Some vp'"
    using traverse_total[OF assms(1) assms(2)] by blast
  then show ?thesis unfolding getTrace_def by simp
qed

lemma getTrace_knot: "closed knot \<and> \<not> wf_heap knot \<and> getTrace knot 0 = Some [''b'', ''a'']"
  unfolding closed_def wf_heap_def getTrace_def knot_def
  by (auto simp: eval_nat_numeral less_Suc_eq)

section \<open>Facts about the constructors and the example graphs\<close>

lemma wf_heap_Nil: "wf_heap []"
  unfolding wf_heap_def by simp

lemma wf_heap_task:
  assumes "wf_heap h" "\<forall>d \<in> set ds. d < length h"
  shows "wf_heap (snd (task l ds c h))"
  unfolding wf_heap_def
proof (intro allI impI)
  fix i assume "i < length (snd (task l ds c h))"
  then have "i < length h \<or> i = length h" unfolding task_def by (auto simp: Let_def)
  then show "(\<forall>d \<in> set (deps (snd (task l ds c h) ! i)). d < i) \<and> task_id (snd (task l ds c h) ! i) = i"
    using assms unfolding wf_heap_def task_def by (auto simp: Let_def nth_append)
qed

lemma fresh_Nil: "fresh []"
  unfolding fresh_def by simp

lemma fresh_task: "fresh h \<Longrightarrow> fresh (snd (task l ds c h))"
  unfolding fresh_def task_def by (auto simp: Let_def)

lemma length_task: "length (snd (task l ds c h)) = Suc (length h)"
  unfolding task_def by (simp add: Let_def)

lemma all_node:
  "fst (all l ts h) = length h" "length (snd (all l ts h)) = Suc (length h)"
  "deps (snd (all l ts h) ! length h) = ts"
  "compute (snd (all l ts h) ! length h) vs = Ok (Tuple vs)"
  "label (snd (all l ts h) ! length h) = l"
  unfolding all_def task_def ok_def by (simp_all add: Let_def)



lemma uses_helper_examples:
  "uses_helper (leaf_ok n)" "uses_helper (leaf_err e)" "uses_helper (times k)" "uses_helper plus"
  unfolding uses_helper_def leaf_ok_def leaf_err_def times_def plus_def ok_def err_def
  by (auto split: list.splits val.splits)

lemma exec_final: "exec evs (init h) \<noteq> None \<Longrightarrow> exec evs (init h) = Some (final evs h)"
  unfolding final_def by simp

lemmas eval_defs = task_def all_def ok_def err_def init_def final_def executeTask_sync_def
  outcome_def resolve_def calls_of_def Let_def leaf_ok_def leaf_err_def times_def plus_def
  blame_other_def diamond_def diamond_schedule_def failing_diamond_def root_fails_def
  two_failures_def leaf_fails_def fast_wins_def fast_wins_settled_def both_leaves_fail_def
  blaming_def accuse_def diamond_all_def all_schedule_def empty_all_def

lemma wf_diamond: "wf_heap diamond"
  unfolding diamond_def by (intro wf_heap_task wf_heap_Nil) (simp_all add: length_task)

lemma fresh_diamond: "fresh diamond"
  unfolding diamond_def by (intro fresh_task fresh_Nil)







lemma wf_diamond_all: "wf_heap diamond_all"
  unfolding diamond_all_def all_def
  by (intro wf_heap_task wf_diamond) (simp add: diamond_def length_task)

lemma fresh_diamond_all: "fresh diamond_all"
  unfolding diamond_all_def all_def by (intro fresh_task fresh_diamond)

lemma diamond_run: "exec diamond_schedule (init diamond) \<noteq> None"
  by (simp add: eval_defs eval_nat_numeral)


lemma fast_wins_run: "exec fast_wins (init two_failures) \<noteq> None"
  by (simp add: eval_defs eval_nat_numeral)

lemma fast_wins_settled_run: "exec fast_wins_settled (init two_failures) \<noteq> None"
  by (simp add: eval_defs eval_nat_numeral)

lemma both_leaves_fail_run: "exec both_leaves_fail (init two_failures) \<noteq> None"
  by (simp add: eval_defs eval_nat_numeral)

lemma all_schedule_run: "exec all_schedule (init diamond_all) \<noteq> None"
  by (simp add: eval_defs eval_nat_numeral)

lemmas eval_re_defs = task_re_def ok_def err_def init_re_def final_re_def executeTask_re_def
  invoke_def value_of_def return_re_def calls_of_re_def Let_def quiet_def again_def relapse_def
  times_def plus_def reentrant_diamond_def relapsing_leaf_def relapsing_pair_def fails_first_def
  succeeds_later_def forwards_first_def computes_later_def

section \<open>Memoization when no compute function calls run\<close>

text \<open>
  In the first execution model, where the compute functions call nothing: the compute of
  a node is invoked at most once, whatever calls of \<open>run\<close> and whatever order of
  completion the schedule holds. In a diamond (\<open>d\<close> depends on \<open>b\<close> and \<open>c\<close>, both
  depend on the leaf \<open>a\<close>), once \<open>run(d)\<close> has been called the compute of \<open>a\<close> has been
  invoked exactly once; and once \<open>run\<close> on a node has returned \<open>Ok\<close>, the compute of every
  node reachable from it has been invoked exactly once.
\<close>

lemma once_without_calls:
  assumes "wf_heap h" "fresh h" "exec evs (init h) = Some s"
  shows "(\<forall>t < length h. length (calls_of s t) \<le> 1) \<and>
         (\<forall>a b c d. d < length h \<and> deps (h ! d) = [b, c] \<and> deps (h ! b) = [a] \<and>
            deps (h ! c) = [a] \<and> deps (h ! a) = [] \<and> Run d \<in> set evs \<longrightarrow>
            calls_of s a = [(a, [])]) \<and>
         (\<forall>d a v. d < length h \<and> outcome s d = Some (Ok v) \<and> reaches h d a \<longrightarrow>
            length (calls_of s a) = 1)"
proof (intro conjI allI impI)
  fix t assume "t < length h"
  then have "node_ok s t" using reachable_inv(5)[OF assms] by simp
  then show "length (calls_of s t) \<le> 1" using node_ok_calls by fastforce
next
  fix a b c d
  assume A: "d < length h \<and> deps (h ! d) = [b, c] \<and> deps (h ! b) = [a] \<and>
            deps (h ! c) = [a] \<and> deps (h ! a) = [] \<and> Run d \<in> set evs"
  note R = reachable_inv[OF assms]
  have w: "wf_heap h" using assms(1) .
  have d: "d < length h" and dd: "deps (h ! d) = [b, c]" using A by simp_all
  have b: "b < d" and c: "c < d" using w d dd unfolding wf_heap_def by auto
  have bl: "b < length h" and cl: "c < length h" using b c d by simp_all
  have ab: "a < b" using w bl A unfolding wf_heap_def by auto
  have al: "a < length h" using ab bl by simp
  have "started s d" using exec_Run_started[OF init_inv[OF assms(1,2)] assms(3)] A by simp
  then have "started s b \<or> started s c"
    using started_some_dep[OF R(1), of d] d R(2) R(3)[OF d] dd by auto
  moreover have "started s b \<Longrightarrow> started s a"
    using started_some_dep[OF R(1), of b] bl R(2) R(3)[OF bl] A by auto
  moreover have "started s c \<Longrightarrow> started s a"
    using started_some_dep[OF R(1), of c] cl R(2) R(3)[OF cl] A by auto
  ultimately have "started s a" by blast
  then show "calls_of s a = [(a, [])]"
    using started_leaf[OF R(5)[OF al]] R(3)[OF al] A by simp
next
  fix d a v
  assume A: "d < length h \<and> outcome s d = Some (Ok v) \<and> reaches h d a"
  note R = reachable_inv[OF assms]
  have dl: "d < length (heap s)" using A R(2) by simp
  have re: "reaches (heap s) d a"
    using reaches_graph'[OF reachable_graph[OF assms] assms(1)] A by simp
  obtain args where "calls_of s a = [(a, args)]"
    using ok_all_computed[OF R(1) re dl] A by blast
  then show "length (calls_of s a) = 1" by simp
qed

text \<open>
  There, once a node has settled as an Err, every later call of \<open>run\<close> on it returns at
  once, without any change of state, and what it returns is that same Err, whatever
  happens in between; the invocations of the node's compute stay what they were.
\<close>

lemma cached_err_stays:
  assumes "wf_heap h" "fresh h" "exec evs (init h) = Some s" "t < length h"
    and "task_result (heap s ! t) = Some (Err e a)"
  shows "step (Run t) s = Some s \<and> outcome s t = Some (Err e a) \<and>
         (\<forall>evs' s'. exec evs' s = Some s' \<longrightarrow>
            step (Run t) s' = Some s' \<and> task_result (heap s' ! t) = Some (Err e a) \<and>
            outcome s' t = Some (Err e a) \<and> calls_of s' t = calls_of s t)"
proof -
  note R = reachable_inv[OF assms(1-3)]
  have t: "t < length (heap s)" using R(2) assms(4) by simp
  have o: "outcome s t = Some (Err e a)" using outcome_result[OF assms(5)] .
  have 1: "step (Run t) s = Some s" using run_settled[OF t] assms(5) by simp
  have 2: "\<forall>evs' s'. exec evs' s = Some s' \<longrightarrow>
            step (Run t) s' = Some s' \<and> task_result (heap s' ! t) = Some (Err e a) \<and>
            outcome s' t = Some (Err e a) \<and> calls_of s' t = calls_of s t"
  proof (intro allI impI)
    fix evs' s' assume ex: "exec evs' s = Some s'"
    have E: "invariant s'" "extends s s'" using exec_inv[OF R(1) ex] by simp_all
    have r': "task_result (heap s' ! t) = Some (Err e a)" using extends_result[OF E(2) assms(5)] .
    have t': "t < length (heap s')" using extends_length[OF E(2)] t by simp
    have "step (Run t) s' = Some s'" using run_settled[OF t'] r' by simp
    moreover have "calls_of s' t = calls_of s t" using resolved_calls_stable[OF R(1) t o E(2) E(1)] .
    ultimately show "step (Run t) s' = Some s' \<and> task_result (heap s' ! t) = Some (Err e a) \<and>
            outcome s' t = Some (Err e a) \<and> calls_of s' t = calls_of s t"
      using r' outcome_result[OF r'] by simp
  qed
  show ?thesis using 1 o 2 by simp
qed

text \<open>
  There, when the promise of \<open>t\<close> has resolved with an Err that a dependency resolved
  with, by the cached-error path or by the race: the compute of \<open>t\<close> has not been invoked
  and never will be, the \<open>run\<close> activation that started \<open>t\<close> can resume and write that
  Err to \<open>_result\<close>, \<open>_result\<close> never holds anything else, and once it is written every
  call of \<open>run(t)\<close> returns at once.
\<close>

lemma forwarded_err_stays:
  assumes "wf_heap h" "fresh h" "exec evs (init h) = Some s" "t < length h"
    and "d \<in> set (deps (h ! t))" "outcome s d = Some (Err e a)"
    and "task_promise (heap s ! t) = Some (Resolved (Err e a))"
  shows "(\<exists>evs1 s1. exec evs1 s = Some s1 \<and> task_result (heap s1 ! t) = Some (Err e a)) \<and>
         (\<forall>evs' s'. exec evs' s = Some s' \<longrightarrow>
            calls_of s' t = [] \<and> outcome s' t = Some (Err e a) \<and>
            (task_result (heap s' ! t) = None \<or> task_result (heap s' ! t) = Some (Err e a)) \<and>
            (task_result (heap s' ! t) \<noteq> None \<longrightarrow> step (Run t) s' = Some s'))"
proof -
  note R = reachable_inv[OF assms(1-3)]
  have tl: "t < length (heap s)" using R(2) assms(4) by simp
  have dp: "deps (heap s ! t) = deps (h ! t)" using R(3)[OF assms(4)] .
  have o: "outcome s t = Some (Err e a)"
    using node_ok_resolved(3)[OF R(5)[OF assms(4)] assms(7)] .
  have "\<And>args. \<not> deps_resolved s t args"
  proof
    fix args assume "deps_resolved s t args"
    then obtain v where "outcome s d = Some (Ok v)"
      using deps_resolved_outcome[of s t args d] assms(5) dp by auto
    then show False using assms(6) by simp
  qed
  then have c: "calls_of s t = []"
    using node_ok_resolved(2)[OF R(5)[OF assms(4)] assms(7)] unfolding provenance_def by auto
  have 1: "\<exists>evs1 s1. exec evs1 s = Some s1 \<and> task_result (heap s1 ! t) = Some (Err e a)"
    using finish_resolved[OF R(1) tl assms(7)] by blast
  have 2: "\<forall>evs' s'. exec evs' s = Some s' \<longrightarrow>
            calls_of s' t = [] \<and> outcome s' t = Some (Err e a) \<and>
            (task_result (heap s' ! t) = None \<or> task_result (heap s' ! t) = Some (Err e a)) \<and>
            (task_result (heap s' ! t) \<noteq> None \<longrightarrow> step (Run t) s' = Some s')"
  proof (intro allI impI)
    fix evs' s' assume ex: "exec evs' s = Some s'"
    have E: "invariant s'" "extends s s'" using exec_inv[OF R(1) ex] by simp_all
    have t': "t < length (heap s')" using extends_length[OF E(2)] tl by simp
    have o': "outcome s' t = Some (Err e a)" using E(2) o unfolding extends_def by blast
    have c': "calls_of s' t = []" using resolved_calls_stable[OF R(1) tl o E(2) E(1)] c by simp
    have r': "task_result (heap s' ! t) = None \<or> task_result (heap s' ! t) = Some (Err e a)"
    proof (cases "task_result (heap s' ! t)")
      case None
      then show ?thesis by simp
    next
      case (Some r)
      then show ?thesis using outcome_result[OF Some] o' by simp
    qed
    have "task_result (heap s' ! t) \<noteq> None \<longrightarrow> step (Run t) s' = Some s'"
      using run_settled[OF t'] by simp
    then show "calls_of s' t = [] \<and> outcome s' t = Some (Err e a) \<and>
            (task_result (heap s' ! t) = None \<or> task_result (heap s' ! t) = Some (Err e a)) \<and>
            (task_result (heap s' ! t) \<noteq> None \<longrightarrow> step (Run t) s' = Some s')"
      using c' o' r' by simp
  qed
  show ?thesis using 1 2 by simp
qed

section \<open>The two execution models agree when no compute function calls run\<close>

lemma sim_length: "sim rs s \<Longrightarrow> length (rheap rs) = length (heap s)"
  unfolding sim_def by simp

lemma sim_calls: "sim rs s \<Longrightarrow> rcalls rs = calls s"
  unfolding sim_def by simp

lemma sim_node: "sim rs s \<Longrightarrow> t < length (heap s) \<Longrightarrow> node_rel rs s t"
  unfolding sim_def by simp

lemma sim_flight:
  assumes "sim rs s" "p < length (flights rs)"
  shows "target (flights rs ! p) < length (heap s)"
    "r_promise (rheap rs ! target (flights rs ! p)) = Some p"
  using assms unfolding sim_def by simp_all

lemma node_rel_same: "node_rel rs s t \<Longrightarrow> same_node (rheap rs ! t) (heap s ! t)"
  unfolding node_rel_def by simp

lemma node_rel_fields:
  assumes "node_rel rs s t"
  shows "r_deps (rheap rs ! t) = deps (heap s ! t)"
    "r_result (rheap rs ! t) = task_result (heap s ! t)"
    "r_compute (rheap rs ! t) k vs = ([], compute (heap s ! t) vs)"
  using assms unfolding node_rel_def same_node_def by simp_all

lemma node_rel_None:
  assumes "node_rel rs s t" "r_promise (rheap rs ! t) = None"
  shows "task_promise (heap s ! t) = None"
  using assms unfolding node_rel_def by simp

lemma node_rel_Some:
  assumes "node_rel rs s t" "r_promise (rheap rs ! t) = Some p"
  shows "p < length (flights rs)" "target (flights rs ! p) = t"
    "resumed (flights rs ! p) = (t \<notin> awaiting s)"
    "status_rel rs s t (status (flights rs ! p))"
  using assms unfolding node_rel_def by simp_all

lemma status_rel_started:
  assumes n: "node_ok s t" and r: "status_rel rs s t e"
  shows "task_promise (heap s ! t) \<noteq> None"
proof (cases e)
  case (Computing r')
  then obtain args where "frames s t = Some (AwaitCompute args)" using r unfolding status_rel_def by auto
  then show ?thesis using node_ok_frame(1)[OF n] by simp
next
  case (Racing srcs)
  then have "frames s t = Some AwaitRace" using r unfolding status_rel_def by simp
  then show ?thesis using node_ok_frame(1)[OF n] by simp
next
  case (Returned r')
  then show ?thesis using r unfolding status_rel_def by simp
qed

lemma node_rel_promise:
  assumes n: "node_ok s t" and r: "node_rel rs s t"
  shows "(r_promise (rheap rs ! t) = None) = (task_promise (heap s ! t) = None)"
proof (cases "r_promise (rheap rs ! t)")
  case None
  then show ?thesis using node_rel_None[OF r] by simp
next
  case (Some p)
  then show ?thesis using status_rel_started[OF n node_rel_Some(4)[OF r Some]] by simp
qed

lemma value_of_outcome:
  assumes i: "invariant s" and sm: "sim rs s" and d: "d < length (heap s)"
    and r: "src_rel rs s src d"
  shows "value_of rs src = outcome s d"
proof (cases src)
  case (Cached x)
  then have "task_result (heap s ! d) = Some x" using r unfolding src_rel_def by simp
  then show ?thesis using Cached outcome_result unfolding value_of_def by fastforce
next
  case (Inflight p)
  then have p: "r_promise (rheap rs ! d) = Some p" using r unfolding src_rel_def by simp
  have n: "node_ok s d" using i d unfolding invariant_def by simp
  note st = node_rel_Some(4)[OF sim_node[OF sm d] p]
  show ?thesis
  proof (cases "status (flights rs ! p)")
    case (Computing x)
    then obtain args where "frames s d = Some (AwaitCompute args)" using st unfolding status_rel_def by auto
    then have "outcome s d = None" using node_ok_frame(4)[OF n] by simp
    then show ?thesis using Inflight Computing unfolding value_of_def by simp
  next
    case (Racing srcs)
    then have "frames s d = Some AwaitRace" using st unfolding status_rel_def by simp
    then have "outcome s d = None" using node_ok_frame(4)[OF n] by simp
    then show ?thesis using Inflight Racing unfolding value_of_def by simp
  next
    case (Returned x)
    then have "task_promise (heap s ! d) = Some (Resolved x)" using st unfolding status_rel_def by simp
    then have "outcome s d = Some x" using node_ok_resolved(3)[OF n] by simp
    then show ?thesis using Inflight Returned unfolding value_of_def by simp
  qed
qed

lemma values_outcomes:
  assumes i: "invariant s" and sm: "sim rs s"
  shows "list_all2 (src_rel rs s) srcs ds \<Longrightarrow> \<forall>d \<in> set ds. d < length (heap s) \<Longrightarrow>
     map (value_of rs) srcs = map (outcome s) ds"
proof (induction rule: list_all2_induct)
  case Nil
  then show ?case by simp
next
  case (Cons x xs y ys)
  then show ?case using value_of_outcome[OF i sm, of y x] by simp
qed

lemma src_rel_mono:
  assumes "src_rel rs s src d" "extends s s'" "keeps rs rs'"
  shows "src_rel rs' s' src d"
  using assms extends_result[of s s' d] unfolding src_rel_def keeps_def
  by (auto split: source.splits)

lemma keeps_refl: "keeps rs rs"
  unfolding keeps_def by simp

lemma keeps_trans: "keeps rs rs' \<Longrightarrow> keeps rs' rs'' \<Longrightarrow> keeps rs rs''"
  unfolding keeps_def by simp

text \<open>A node that a step leaves alone stays related.\<close>

lemma node_rel_keep:
  assumes r: "node_rel rs s u" and u: "u < length (heap s)"
    and e: "extends s s'" and v: "view s' u = view s u"
    and h: "rheap rs' ! u = rheap rs ! u"
    and f: "\<And>p. r_promise (rheap rs ! u) = Some p \<Longrightarrow> p < length (flights rs) \<Longrightarrow>
               p < length (flights rs') \<and> flights rs' ! p = flights rs ! p"
    and k: "keeps rs rs'"
  shows "node_rel rs' s' u"
proof -
  note g = graph_of_nth[OF extends_graph[OF e] u]
  have vp: "task_promise (heap s' ! u) = task_promise (heap s ! u)"
    and vr: "task_result (heap s' ! u) = task_result (heap s ! u)"
    and vf: "frames s' u = frames s u" and va: "(u \<in> awaiting s') = (u \<in> awaiting s)"
    using v unfolding view_def by simp_all
  have sn: "same_node (rheap rs' ! u) (heap s' ! u)"
    using node_rel_same[OF r] h g vr unfolding same_node_def by simp
  show ?thesis
  proof (cases "r_promise (rheap rs ! u)")
    case None
    then show ?thesis using sn h vp node_rel_None[OF r None] unfolding node_rel_def by simp
  next
    case (Some p)
    note R = node_rel_Some[OF r Some]
    have fp: "p < length (flights rs')" "flights rs' ! p = flights rs ! p" using f[OF Some R(1)] by simp_all
    have "status_rel rs' s' u (status (flights rs ! p))"
    proof (cases "status (flights rs ! p)")
      case (Computing x)
      then show ?thesis using R(4) vf g(2) unfolding status_rel_def by simp
    next
      case (Racing srcs)
      then have l: "list_all2 (src_rel rs s) srcs (deps (heap s ! u))" and fr: "frames s u = Some AwaitRace"
        using R(4) unfolding status_rel_def by simp_all
      have "list_all2 (src_rel rs' s') srcs (deps (heap s ! u))"
        using list_all2_mono[OF l] src_rel_mono[OF _ e k] by blast
      then show ?thesis using Racing fr vf g(1) unfolding status_rel_def by simp
    next
      case (Returned x)
      then show ?thesis using R(4) vp unfolding status_rel_def by simp
    qed
    then show ?thesis using sn h Some fp R(2,3) va unfolding node_rel_def by simp
  qed
qed

lemma first_cached_err_same:
  "\<forall>d \<in> set ds. r_result (rh ! d) = task_result (h ! d) \<Longrightarrow>
     first_cached_err_re rh ds = first_cached_err h ds"
  by (induction ds) (auto split: option.splits result.splits)

text \<open>
  The end of a call of \<open>run\<close> that starts \<open>t\<close>, in both models: \<open>_promise\<close> is assigned
  and the \<open>run\<close> activation suspends.
\<close>

lemma start_rel:
  assumes i: "invariant s1" and sm: "sim rs1 s1" and t: "t < length (heap s1)"
    and un: "task_promise (heap s1 ! t) = None"
    and h: "heap s' = (heap s1)[t := (heap s1 ! t)\<lparr>task_promise := Some pr\<rparr>]"
    and a: "awaiting s' = insert t (awaiting s1)"
    and f: "\<And>u. u \<noteq> t \<Longrightarrow> frames s' u = frames s1 u"
    and c: "calls s' = calls s1 @ cs" "\<forall>x \<in> set cs. fst x = t"
    and rh: "rheap rs' = (rheap rs1)[t := (rheap rs1 ! t)\<lparr>r_promise := Some (length (flights rs1))\<rparr>]"
    and rf: "flights rs' = flights rs1 @ [\<lparr>target = t, status = e, resumed = False\<rparr>]"
    and rc: "rcalls rs' = rcalls rs1 @ cs"
    and st: "extends s1 s' \<Longrightarrow> keeps rs1 rs' \<Longrightarrow> status_rel rs' s' t e"
  shows "sim rs' s' \<and> keeps rs1 rs' \<and> extends s1 s'"
proof -
  have n: "node_ok s1 t" using i t unfolding invariant_def by simp
  have rl: "length (rheap rs1) = length (heap s1)" using sim_length[OF sm] .
  have rn: "r_promise (rheap rs1 ! t) = None"
    using node_rel_promise[OF n sim_node[OF sm t]] un by simp
  have e: "extends s1 s'"
  proof (rule extends_set_promise[OF h])
    show "\<exists>cs. calls s' = calls s1 @ cs" using c(1) by blast
    show "outcome s1 t = None" using node_ok_unstarted(5)[OF n un] .
  qed
  have k: "keeps rs1 rs'"
    unfolding keeps_def
  proof (intro allI impI)
    fix d p assume "r_promise (rheap rs1 ! d) = Some p"
    then have "d \<noteq> t" using rn by auto
    then show "r_promise (rheap rs' ! d) = Some p"
      using \<open>r_promise (rheap rs1 ! d) = Some p\<close> unfolding rh by simp
  qed
  note S = st[OF e k]
  have fl: "\<forall>p < length (flights rs').
         target (flights rs' ! p) < length (heap s') \<and>
         r_promise (rheap rs' ! target (flights rs' ! p)) = Some p"
  proof (intro allI impI)
    fix p assume p: "p < length (flights rs')"
    show "target (flights rs' ! p) < length (heap s') \<and>
         r_promise (rheap rs' ! target (flights rs' ! p)) = Some p"
    proof (cases "p < length (flights rs1)")
      case True
      note F = sim_flight[OF sm True]
      have "target (flights rs1 ! p) \<noteq> t" using F(2) rn by auto
      then show ?thesis using F True unfolding rf rh h by (simp add: nth_append)
    next
      case False
      then have "p = length (flights rs1)" using p unfolding rf by simp
      then show ?thesis using t rl unfolding rf rh h by simp
    qed
  qed
  have nr: "\<forall>u < length (heap s'). node_rel rs' s' u"
  proof (intro allI impI)
    fix u assume "u < length (heap s')"
    then have u: "u < length (heap s1)" unfolding h by simp
    show "node_rel rs' s' u"
    proof (cases "u = t")
      case True
      have "same_node (rheap rs' ! t) (heap s' ! t)"
        using node_rel_same[OF sim_node[OF sm t]] t rl unfolding rh h same_node_def by simp
      moreover have "r_promise (rheap rs' ! t) = Some (length (flights rs1))"
        using t rl unfolding rh by simp
      moreover have "flights rs' ! length (flights rs1) = \<lparr>target = t, status = e, resumed = False\<rparr>"
        unfolding rf by simp
      moreover have "length (flights rs1) < length (flights rs')" unfolding rf by simp
      moreover have "t \<in> awaiting s'" unfolding a by simp
      ultimately show ?thesis using S True unfolding node_rel_def by simp
    next
      case False
      show ?thesis
      proof (rule node_rel_keep[OF sim_node[OF sm u] u e _ _ _ k])
        have "calls_of s' u = calls_of s1 u"
          using c(2) False unfolding calls_of_def c(1) by (auto simp: filter_empty_conv)
        then show "view s' u = view s1 u" using False f[OF False] unfolding view_def h a by simp
        show "rheap rs' ! u = rheap rs1 ! u" using False unfolding rh by simp
        fix p assume "r_promise (rheap rs1 ! u) = Some p" "p < length (flights rs1)"
        then show "p < length (flights rs') \<and> flights rs' ! p = flights rs1 ! p"
          unfolding rf by (simp add: nth_append)
      qed
    qed
  qed
  have "length (rheap rs') = length (heap s')" using rl unfolding rh h by simp
  moreover have "rcalls rs' = calls s'" using sim_calls[OF sm] unfolding rc c(1) by simp
  ultimately have "sim rs' s'" using fl nr unfolding sim_def by simp
  then show ?thesis using k e by simp
qed

lemma collect_sim:
  fixes s :: "('a, 'e) state" and rs :: "('a, 'e) rstate"
  assumes IH: "\<And>d (s :: ('a, 'e) state) (rs :: ('a, 'e) rstate) src rs'.
      invariant s \<Longrightarrow> sim rs s \<Longrightarrow> run_re n d rs = Some (src, rs') \<Longrightarrow>
      \<exists>s'. run_sync n d s = Some s' \<and> sim rs' s' \<and> src_rel rs' s' src d \<and> keeps rs rs'"
  shows "invariant s \<Longrightarrow> sim rs s \<Longrightarrow> collect (run_re n) ds rs = Some (srcs, rs') \<Longrightarrow>
      \<exists>s'. sequence (run_sync n) ds s = Some s' \<and> sim rs' s' \<and>
        list_all2 (src_rel rs' s') srcs ds \<and> keeps rs rs'"
proof (induction ds arbitrary: s rs srcs rs')
  case Nil
  then show ?case using keeps_refl by simp
next
  case (Cons d ds)
  obtain src rsa srcs' where 1: "run_re n d rs = Some (src, rsa)"
    and 2: "collect (run_re n) ds rsa = Some (srcs', rs')" and 3: "srcs = src # srcs'"
    using Cons.prems(3) by (auto split: option.splits prod.splits)
  obtain sa where a: "run_sync n d s = Some sa" "sim rsa sa" "src_rel rsa sa src d" "keeps rs rsa"
    using IH[OF Cons.prems(1,2) 1] by blast
  have ia: "invariant sa" using run_sync_inv[OF Cons.prems(1) a(1)] by simp
  obtain s' where b: "sequence (run_sync n) ds sa = Some s'" "sim rs' s'"
    "list_all2 (src_rel rs' s') srcs' ds" "keeps rsa rs'"
    using Cons.IH[OF ia a(2) 2] by blast
  have e: "extends sa s'" using sequence_inv[of "run_sync n", OF run_sync_inv ia b(1)] by simp
  have "src_rel rs' s' src d" using src_rel_mono[OF a(3) e b(4)] .
  moreover have "sequence (run_sync n) (d # ds) s = Some s'" using a(1) b(1) by simp
  ultimately show ?case using b(2,3) 3 keeps_trans[OF a(4) b(4)] by blast
qed

lemma run_re_sim:
  fixes s :: "('a, 'e) state" and rs :: "('a, 'e) rstate"
  shows "invariant s \<Longrightarrow> sim rs s \<Longrightarrow> run_re n t rs = Some (src, rs') \<Longrightarrow>
     \<exists>s'. run_sync n t s = Some s' \<and> sim rs' s' \<and> src_rel rs' s' src t \<and> keeps rs rs'"
proof (induction n arbitrary: t s rs src rs')
  case 0
  then show ?case by simp
next
  case (Suc n)
  note i = Suc.prems(1) and sm = Suc.prems(2)
  have rl: "length (rheap rs) = length (heap s)" using sim_length[OF sm] .
  have t: "t < length (heap s)" using Suc.prems(3) rl by (auto split: if_splits)
  have n: "node_ok s t" using i t unfolding invariant_def by simp
  have w: "wf_heap (heap s)" using i unfolding invariant_def by simp
  note nr = sim_node[OF sm t]
  note F = node_rel_fields[OF nr]
  show ?case
  proof (cases "r_result (rheap rs ! t)")
    case (Some r)
    then have "src = Cached r" "rs' = rs" using Suc.prems(3) t rl by simp_all
    moreover have "task_result (heap s ! t) = Some r" using Some F(2) by simp
    ultimately show ?thesis using t sm keeps_refl unfolding src_rel_def by simp
  next
    case None
    note ur = None
    have pr: "task_result (heap s ! t) = None" using None F(2) by simp
    show ?thesis
    proof (cases "r_promise (rheap rs ! t)")
      case (Some p)
      then have "src = Inflight p" "rs' = rs" using Suc.prems(3) t rl ur by simp_all
      moreover have "task_promise (heap s ! t) \<noteq> None" using node_rel_promise[OF n nr] Some by simp
      ultimately show ?thesis using t sm keeps_refl Some pr unfolding src_rel_def by simp
    next
      case None
      have un: "task_promise (heap s ! t) = None" using node_rel_None[OF nr None] .
      obtain e rs1 where ex: "executeTask_re (run_re n) t rs = Some (e, rs1)"
        and src: "src = Inflight (length (flights rs1))"
        and rs': "rs' = rs1\<lparr>rheap := (rheap rs1)[t := (rheap rs1 ! t)
                                           \<lparr>r_promise := Some (length (flights rs1))\<rparr>],
                            flights := flights rs1 @ [\<lparr>target = t, status = e, resumed = False\<rparr>]\<rparr>"
        using Suc.prems(3) t rl ur None by (auto split: option.splits)
      have srcrel: "src_rel rs' s' src t" if "length (rheap rs1) = length (heap s)" for s' :: "('a, 'e) state"
        using that t unfolding src_rel_def src rs' by simp
      show ?thesis
      proof (cases "deps (heap s ! t) = []")
        case True
        have e: "e = Computing (compute (heap s ! t) [])"
          and rs1: "rs1 = rs\<lparr>rcalls := rcalls rs @ [(t, [])]\<rparr>"
          using ex True F(1) F(3) unfolding executeTask_re_def invoke_def by simp_all
        let ?s' = "s\<lparr>frames := (frames s)(t \<mapsto> AwaitCompute []), calls := calls s @ [(t, [])],
                     heap := (heap s)[t := (heap s ! t)\<lparr>task_promise := Some Pending\<rparr>],
                     awaiting := insert t (awaiting s)\<rparr>"
        have run: "run_sync (Suc n) t s = Some ?s'"
          using t pr un True by (simp add: executeTask_sync_def)
        have "sim rs' ?s' \<and> keeps rs rs' \<and> extends s ?s'"
        proof (rule start_rel[OF i sm t un, where cs = "[(t, [])]" and e = e and pr = Pending])
          show "status_rel rs' ?s' t e" using t unfolding e status_rel_def by simp
        qed (simp_all add: rs' rs1)
        moreover have "src_rel rs' ?s' src t" using srcrel rl unfolding rs1 by simp
        ultimately show ?thesis using run by blast
      next
        case False
        note nonempty = False
        have below: "\<forall>d \<in> set (deps (heap s ! t)). d < t" using w t unfolding wf_heap_def by simp
        have same: "\<forall>d \<in> set (deps (heap s ! t)). r_result (rheap rs ! d) = task_result (heap s ! d)"
        proof
          fix d assume "d \<in> set (deps (heap s ! t))"
          then have "d < length (heap s)" using below t by fastforce
          then show "r_result (rheap rs ! d) = task_result (heap s ! d)"
            using node_rel_fields(2)[OF sim_node[OF sm]] by simp
        qed
        note fc = first_cached_err_same[OF same]
        show ?thesis
        proof (cases "first_cached_err (heap s) (deps (heap s ! t))")
          case (Some r)
          have e: "e = Returned r" and rs1: "rs1 = rs"
            using ex nonempty F(1) fc Some unfolding executeTask_re_def by simp_all
          let ?s' = "s\<lparr>heap := (heap s)[t := (heap s ! t)\<lparr>task_promise := Some (Resolved r)\<rparr>],
                       awaiting := insert t (awaiting s)\<rparr>"
          have run: "run_sync (Suc n) t s = Some ?s'"
            using t pr un nonempty Some by (simp add: executeTask_sync_def)
          have "sim rs' ?s' \<and> keeps rs rs' \<and> extends s ?s'"
          proof (rule start_rel[OF i sm t un, where cs = "[]" and e = e and pr = "Resolved r"])
            show "status_rel rs' ?s' t e" using t unfolding e status_rel_def by simp
          qed (simp_all add: rs' rs1)
          moreover have "src_rel rs' ?s' src t" using srcrel rl unfolding rs1 by simp
          ultimately show ?thesis using run by blast
        next
          case None
          obtain srcs where co: "collect (run_re n) (deps (heap s ! t)) rs = Some (srcs, rs1)"
            and e: "e = Racing srcs"
            using ex nonempty F(1) fc None unfolding executeTask_re_def
            by (auto split: option.splits)
          obtain s0 where sq: "sequence (run_sync n) (deps (heap s ! t)) s = Some s0"
            and sm0: "sim rs1 s0" and l0: "list_all2 (src_rel rs1 s0) srcs (deps (heap s ! t))"
            and k0: "keeps rs rs1"
            using collect_sim[of n, OF Suc.IH i sm co] by blast
          have I0: "invariant s0" "extends s s0" "\<forall>u. (\<forall>d \<in> set (deps (heap s ! t)). d < u) \<longrightarrow> view s0 u = view s u"
            using sequence_inv[of "run_sync n", OF run_sync_inv i sq] by simp_all
          have v: "view s0 t = view s t" using I0(3) below by simp
          have t0: "t < length (heap s0)" using extends_length[OF I0(2)] t by simp
          have un0: "task_promise (heap s0 ! t) = None" using v un unfolding view_def by simp
          have d0: "deps (heap s0 ! t) = deps (heap s ! t)"
            using graph_of_nth(1)[OF extends_graph[OF I0(2)] t] .
          let ?s' = "s0\<lparr>frames := (frames s0)(t \<mapsto> AwaitRace),
                        heap := (heap s0)[t := (heap s0 ! t)\<lparr>task_promise := Some Pending\<rparr>],
                        awaiting := insert t (awaiting s0)\<rparr>"
          have run: "run_sync (Suc n) t s = Some ?s'"
            using t pr un nonempty None sq by (simp add: executeTask_sync_def)
          have "sim rs' ?s' \<and> keeps rs1 rs' \<and> extends s0 ?s'"
          proof (rule start_rel[OF I0(1) sm0 t0 un0, where cs = "[]" and e = e and pr = Pending])
            assume ee: "extends s0 ?s'" and kk: "keeps rs1 rs'"
            have "list_all2 (src_rel rs' ?s') srcs (deps (heap s ! t))"
              using list_all2_mono[OF l0] src_rel_mono[OF _ ee kk] by blast
            then show "status_rel rs' ?s' t e" using t0 d0 unfolding e status_rel_def by simp
          qed (simp_all add: rs')
          moreover have "src_rel rs' ?s' src t"
            using srcrel sim_length[OF sm0] extends_length[OF I0(2)] by simp
          ultimately show ?thesis using run keeps_trans[OF k0] by blast
        qed
      qed
    qed
  qed
qed

text \<open>The bound on the call stack does not change what a call of \<open>run\<close> does.\<close>

lemma sequence_mono:
  assumes "\<And>d s s'. f d s = Some s' \<Longrightarrow> g d s = Some s'"
  shows "sequence f ds s = Some s' \<Longrightarrow> sequence g ds s = Some s'"
proof (induction ds arbitrary: s)
  case Nil
  then show ?case by simp
next
  case (Cons d ds)
  obtain s1 where 1: "f d s = Some s1" "sequence f ds s1 = Some s'"
    using Cons.prems by (auto split: option.splits)
  show ?case using assms[OF 1(1)] Cons.IH[OF 1(2)] by simp
qed

lemma run_sync_Suc: "run_sync n t s = Some s' \<Longrightarrow> run_sync (Suc n) t s = Some s'"
proof (induction n arbitrary: t s s')
  case 0
  then show ?case by simp
next
  case (Suc n)
  have t: "t < length (heap s)" using Suc.prems by (auto split: if_splits)
  show ?case
  proof (cases "task_result (heap s ! t) \<noteq> None \<or> task_promise (heap s ! t) \<noteq> None")
    case True
    then show ?thesis using Suc.prems t by auto
  next
    case False
    then obtain p s1 where ex: "executeTask_sync (run_sync n) t s = Some (p, s1)"
      and s': "s' = s1\<lparr>heap := (heap s1)[t := (heap s1 ! t)\<lparr>task_promise := Some p\<rparr>],
                        awaiting := insert t (awaiting s1)\<rparr>"
      using Suc.prems t by (auto split: option.splits)
    have "executeTask_sync (run_sync (Suc n)) t s = Some (p, s1)"
    proof (cases "deps (heap s ! t) = [] \<or> first_cached_err (heap s) (deps (heap s ! t)) \<noteq> None")
      case True
      then show ?thesis using ex unfolding executeTask_sync_def by auto
    next
      case False
      then obtain s0 where sq: "sequence (run_sync n) (deps (heap s ! t)) s = Some s0"
        and 1: "p = Pending" "s1 = s0\<lparr>frames := (frames s0)(t \<mapsto> AwaitRace)\<rparr>"
        using ex unfolding executeTask_sync_def by (auto split: option.splits)
      have "sequence (run_sync (Suc n)) (deps (heap s ! t)) s = Some s0"
        using sequence_mono[of "run_sync n" "run_sync (Suc n)", OF Suc.IH sq] .
      then show ?thesis using False 1 unfolding executeTask_sync_def by simp
    qed
    then show ?thesis using False t s' by simp
  qed
qed

lemma run_sync_le: "n \<le> m \<Longrightarrow> run_sync n t s = Some s' \<Longrightarrow> run_sync m t s = Some s'"
proof (induction m)
  case 0
  then show ?case by simp
next
  case (Suc m)
  show ?case
  proof (cases "n = Suc m")
    case True
    then show ?thesis using Suc.prems(2) by simp
  next
    case False
    then have "n \<le> m" using Suc.prems(1) by simp
    then show ?thesis using run_sync_Suc[OF Suc.IH[OF _ Suc.prems(2)]] by simp
  qed
qed

lemma run_sync_step:
  assumes i: "invariant s" and r: "run_sync n t s = Some s'"
  shows "step (Run t) s = Some s'"
proof -
  have t: "t < length (heap s)" using r by (cases n) (auto split: if_splits)
  obtain s'' where f: "run_sync (length (heap s)) t s = Some s''"
    using run_sync_total[OF i t t] by blast
  show ?thesis
  proof (cases "n \<le> length (heap s)")
    case True
    then show ?thesis using run_sync_le[OF True r] by simp
  next
    case False
    then have "length (heap s) \<le> n" by simp
    then have "run_sync n t s = Some s''" using run_sync_le[OF _ f] by simp
    then show ?thesis using r f by simp
  qed
qed

text \<open>A step that resumes the execution \<open>p\<close> of \<open>t\<close>, in both models.\<close>

lemma change_rel:
  assumes sm: "sim rs s" and t: "t < length (heap s)"
    and p: "r_promise (rheap rs ! t) = Some p"
    and e: "extends s s'" and v: "\<And>u. u \<noteq> t \<Longrightarrow> view s' u = view s u"
    and rh: "\<And>u. u \<noteq> t \<Longrightarrow> rheap rs' ! u = rheap rs ! u"
    and rp: "r_promise (rheap rs' ! t) = Some p" and rl: "length (rheap rs') = length (rheap rs)"
    and rf: "flights rs' = (flights rs)[p := fl]" "target fl = t"
    and rc: "rcalls rs' = calls s'"
    and self: "keeps rs rs' \<Longrightarrow> node_rel rs' s' t"
  shows "sim rs' s'"
proof -
  have k: "keeps rs rs'"
    unfolding keeps_def
  proof (intro allI impI)
    fix d q assume "r_promise (rheap rs ! d) = Some q"
    then show "r_promise (rheap rs' ! d) = Some q" using p rp rh[of d] by (cases "d = t") simp_all
  qed
  have l: "length (heap s') = length (heap s)" using extends_length[OF e] .
  have fl: "\<forall>q < length (flights rs').
         target (flights rs' ! q) < length (heap s') \<and>
         r_promise (rheap rs' ! target (flights rs' ! q)) = Some q"
  proof (intro allI impI)
    fix q assume "q < length (flights rs')"
    then have q: "q < length (flights rs)" unfolding rf by simp
    show "target (flights rs' ! q) < length (heap s') \<and>
         r_promise (rheap rs' ! target (flights rs' ! q)) = Some q"
    proof (cases "q = p")
      case True
      then show ?thesis using q rf rp t l by simp
    next
      case False
      note F = sim_flight[OF sm q]
      have "target (flights rs ! q) \<noteq> t" using F(2) p False by auto
      then show ?thesis using F False rh l unfolding rf by simp
    qed
  qed
  have nr: "\<forall>u < length (heap s'). node_rel rs' s' u"
  proof (intro allI impI)
    fix u assume "u < length (heap s')"
    then have u: "u < length (heap s)" using l by simp
    show "node_rel rs' s' u"
    proof (cases "u = t")
      case True
      then show ?thesis using self[OF k] by simp
    next
      case False
      show ?thesis
      proof (rule node_rel_keep[OF sim_node[OF sm u] u e v[OF False] rh[OF False] _ k])
        fix q assume q: "r_promise (rheap rs ! u) = Some q" "q < length (flights rs)"
        have "target (flights rs ! q) = u" using node_rel_Some(2)[OF sim_node[OF sm u] q(1)] .
        moreover have "target (flights rs ! p) = t"
          using node_rel_Some(2)[OF sim_node[OF sm t] p] .
        ultimately have "q \<noteq> p" using False by auto
        then show "q < length (flights rs') \<and> flights rs' ! q = flights rs ! q"
          using q(2) unfolding rf by simp
      qed
    qed
  qed
  have "length (rheap rs') = length (heap s')" using rl sim_length[OF sm] l by simp
  then show ?thesis using rc fl nr unfolding sim_def by simp
qed

lemma step_re_sim:
  fixes s :: "('a, 'e) state" and rs :: "('a, 'e) rstate"
  assumes i: "invariant s" and sm: "sim rs s" and st: "step_re n ev rs = Some rs'"
  shows "\<exists>ev' s'. step ev' s = Some s' \<and> sim rs' s'"
proof (cases ev)
  case (Call t)
  then obtain src where "run_re n t rs = Some (src, rs')" using st by auto
  then obtain s' where "run_sync n t s = Some s'" "sim rs' s'"
    using run_re_sim[OF i sm] by blast
  then show ?thesis using run_sync_step[OF i] by blast
next
  case (Computed p)
  then have pl: "p < length (flights rs)" using st by (auto split: if_splits)
  obtain r where stat: "status (flights rs ! p) = Computing r" and rs': "rs' = return_re p r rs"
    using st Computed pl by (auto split: execution.splits)
  let ?t = "target (flights rs ! p)"
  note F = sim_flight[OF sm pl]
  note N = node_rel_Some[OF sim_node[OF sm F(1)] F(2)]
  obtain args where fr: "frames s ?t = Some (AwaitCompute args)" and r: "r = compute (heap s ! ?t) args"
    using N(4) stat unfolding status_rel_def by auto
  let ?s' = "resolve ?t r s"
  have ps: "step (ComputeDone ?t) s = Some ?s'" using fr r by simp
  have e: "extends s ?s'" using step_ComputeDone_inv[OF i ps] by simp
  have "sim rs' ?s'"
  proof (rule change_rel[OF sm F(1) F(2) e, where fl = "(flights rs ! p)\<lparr>status := Returned r\<rparr>"])
    show "\<And>u. u \<noteq> ?t \<Longrightarrow> view ?s' u = view s u" using step_local[OF ps] by simp
    show "node_rel rs' ?s' ?t"
      using sim_node[OF sm F(1)] F pl N(3) unfolding node_rel_def rs' return_re_def resolve_def
        same_node_def status_rel_def by simp
  qed (simp_all add: rs' return_re_def F resolve_def sim_calls[OF sm])
  then show ?thesis using ps by blast
next
  case (Failed p k)
  then have pl: "p < length (flights rs)" using st by (auto split: if_splits)
  obtain srcs e a where stat: "status (flights rs ! p) = Racing srcs" and k: "k < length srcs"
    and val: "value_of rs (srcs ! k) = Some (Err e a)" and rs': "rs' = return_re p (Err e a) rs"
    using st Failed pl by (auto split: execution.splits if_splits option.splits result.splits)
  let ?t = "target (flights rs ! p)"
  note F = sim_flight[OF sm pl]
  note N = node_rel_Some[OF sim_node[OF sm F(1)] F(2)]
  have fr: "frames s ?t = Some AwaitRace" and l: "list_all2 (src_rel rs s) srcs (deps (heap s ! ?t))"
    using N(4) stat unfolding status_rel_def by simp_all
  let ?d = "deps (heap s ! ?t) ! k"
  have kl: "k < length (deps (heap s ! ?t))" using k list_all2_lengthD[OF l] by simp
  have din: "?d \<in> set (deps (heap s ! ?t))" using kl by simp
  have w: "wf_heap (heap s)" using i unfolding invariant_def by simp
  have "?d < ?t" using w F(1) din unfolding wf_heap_def by blast
  then have dl: "?d < length (heap s)" using F(1) by simp
  have "src_rel rs s (srcs ! k) ?d" using list_all2_nthD[OF l k] .
  then have o: "outcome s ?d = Some (Err e a)" using value_of_outcome[OF i sm dl] val by simp
  let ?s' = "resolve ?t (Err e a) s"
  have ps: "step (RaceError ?t ?d) s = Some ?s'" using fr din o by simp
  have ex: "extends s ?s'" using step_RaceError_inv[OF i ps] by simp
  have "sim rs' ?s'"
  proof (rule change_rel[OF sm F(1) F(2) ex, where fl = "(flights rs ! p)\<lparr>status := Returned (Err e a)\<rparr>"])
    show "\<And>u. u \<noteq> ?t \<Longrightarrow> view ?s' u = view s u" using step_local[OF ps] by simp
    show "node_rel rs' ?s' ?t"
      using sim_node[OF sm F(1)] F pl N(3) unfolding node_rel_def rs' return_re_def resolve_def
        same_node_def status_rel_def by simp
  qed (simp_all add: rs' return_re_def F resolve_def sim_calls[OF sm])
  then show ?thesis using ps by blast
next
  case (Succeeded p)
  then have pl: "p < length (flights rs)" using st by (auto split: if_splits)
  let ?t = "target (flights rs ! p)"
  note F = sim_flight[OF sm pl]
  note N = node_rel_Some[OF sim_node[OF sm F(1)] F(2)]
  note G = node_rel_fields[OF sim_node[OF sm F(1)]]
  obtain srcs vs where stat: "status (flights rs ! p) = Racing srcs"
    and ao: "all_ok (map (value_of rs) srcs) = Some vs"
    using st Succeeded pl by (auto split: execution.splits option.splits)
  have inv: "invoke (run_re n) ?t vs rs =
      Some (Computing (compute (heap s ! ?t) vs), rs\<lparr>rcalls := rcalls rs @ [(?t, vs)]\<rparr>)"
    unfolding invoke_def using G(3) by simp
  have rs': "rs' = rs\<lparr>rcalls := rcalls rs @ [(?t, vs)],
      flights := (flights rs)[p := (flights rs ! p)\<lparr>status := Computing (compute (heap s ! ?t) vs)\<rparr>]\<rparr>"
    using st Succeeded pl stat ao inv by simp
  have fr: "frames s ?t = Some AwaitRace" and l: "list_all2 (src_rel rs s) srcs (deps (heap s ! ?t))"
    using N(4) stat unfolding status_rel_def by simp_all
  have w: "wf_heap (heap s)" using i unfolding invariant_def by simp
  have "\<forall>d \<in> set (deps (heap s ! ?t)). d < length (heap s)"
    using w F(1) unfolding wf_heap_def by fastforce
  then have "map (value_of rs) srcs = map (outcome s) (deps (heap s ! ?t))"
    using values_outcomes[OF i sm l] by simp
  then have ao': "all_ok (map (outcome s) (deps (heap s ! ?t))) = Some vs" using ao by simp
  let ?s' = "s\<lparr>frames := (frames s)(?t \<mapsto> AwaitCompute vs), calls := calls s @ [(?t, vs)]\<rparr>"
  have ps: "step (RaceSuccess ?t) s = Some ?s'" using fr ao' by simp
  have ex: "extends s ?s'" using step_RaceSuccess_inv[OF i ps] by simp
  have "sim rs' ?s'"
  proof (rule change_rel[OF sm F(1) F(2) ex,
      where fl = "(flights rs ! p)\<lparr>status := Computing (compute (heap s ! ?t) vs)\<rparr>"])
    show "\<And>u. u \<noteq> ?t \<Longrightarrow> view ?s' u = view s u" using step_local[OF ps] by simp
    show "node_rel rs' ?s' ?t"
      using sim_node[OF sm F(1)] F pl N(3) unfolding node_rel_def rs' same_node_def status_rel_def
      by simp
  qed (simp_all add: rs' F sim_calls[OF sm])
  then show ?thesis using ps by blast
next
  case (Resumed p)
  then have pl: "p < length (flights rs)" and nres: "\<not> resumed (flights rs ! p)"
    using st by (auto split: if_splits)
  let ?t = "target (flights rs ! p)"
  note F = sim_flight[OF sm pl]
  note N = node_rel_Some[OF sim_node[OF sm F(1)] F(2)]
  obtain r where stat: "status (flights rs ! p) = Returned r"
    and rs': "rs' = rs\<lparr>rheap := (rheap rs)[?t := (rheap rs ! ?t)\<lparr>r_result := Some r\<rparr>],
                       flights := (flights rs)[p := (flights rs ! p)\<lparr>resumed := True\<rparr>]\<rparr>"
    using st Resumed pl nres by (auto split: execution.splits)
  have aw: "?t \<in> awaiting s" using N(3) nres by simp
  have pr: "task_promise (heap s ! ?t) = Some (Resolved r)"
    using N(4) stat unfolding status_rel_def by simp
  let ?s' = "s\<lparr>heap := (heap s)[?t := (heap s ! ?t)\<lparr>task_result := Some r\<rparr>],
                awaiting := awaiting s - {?t}\<rparr>"
  have ps: "step (Settle ?t) s = Some ?s'" using aw pr by simp
  have ex: "extends s ?s'" using step_Settle_inv[OF i ps] by simp
  have tl: "?t < length (rheap rs)" using F(1) sim_length[OF sm] by simp
  have "sim rs' ?s'"
  proof (rule change_rel[OF sm F(1) F(2) ex, where fl = "(flights rs ! p)\<lparr>resumed := True\<rparr>"])
    show "\<And>u. u \<noteq> ?t \<Longrightarrow> view ?s' u = view s u" using step_local[OF ps] by simp
    show "node_rel rs' ?s' ?t"
      using sim_node[OF sm F(1)] F pl tl stat pr unfolding node_rel_def rs' same_node_def status_rel_def
      by simp
  qed (simp_all add: rs' F tl sim_calls[OF sm])
  then show ?thesis using ps by blast
qed

lemma exec_re_sim:
  fixes s :: "('a, 'e) state" and rs :: "('a, 'e) rstate"
  shows "invariant s \<Longrightarrow> sim rs s \<Longrightarrow> exec_re n evs rs = Some rs' \<Longrightarrow>
     \<exists>evs' s'. exec evs' s = Some s' \<and> sim rs' s'"
proof (induction evs arbitrary: s rs)
  case Nil
  then have "exec [] s = Some s \<and> sim rs' s" by simp
  then show ?case by (intro exI)
next
  case (Cons ev evs)
  obtain rs1 where 1: "step_re n ev rs = Some rs1" "exec_re n evs rs1 = Some rs'"
    using Cons.prems(3) by (auto split: option.splits)
  obtain ev' s1 where 2: "step ev' s = Some s1" "sim rs1 s1"
    using step_re_sim[OF Cons.prems(1,2) 1(1)] by blast
  have i1: "invariant s1" using step_inv[OF Cons.prems(1) 2(1)] by simp
  obtain evs' s' where 3: "exec evs' s1 = Some s'" "sim rs' s'"
    using Cons.IH[OF i1 2(2) 1(2)] by blast
  have "exec (ev' # evs') s = Some s'" using 2(1) 3(1) by simp
  then show ?case using 3(2) by blast
qed

lemma sim_init:
  assumes "fresh h"
  shows "sim (init_re (embed h)) (init h)"
proof -
  have "\<forall>t < length h. task_promise (h ! t) = None \<and> task_result (h ! t) = None"
    using assms unfolding fresh_def by simp
  then show ?thesis
    unfolding sim_def node_rel_def same_node_def init_re_def init_def embed_def by simp
qed

text \<open>
  So, when no compute function calls \<open>run\<close>, every state that the second model reaches is
  reached by the first, and what was proved of the first holds of the second: a compute is
  invoked at most once, and a \<open>_result\<close> that is written stays.
\<close>

lemma embed_task: "embed (snd (task l ds c h)) = snd (task_re l ds (quiet c) (embed h))"
  unfolding task_def task_re_def embed_def quiet_def by (simp add: Let_def)

lemma embedded_sim:
  assumes "wf_heap h" "fresh h" "exec_re n evs (init_re (embed h)) = Some rs"
  shows "\<exists>evs' s. exec evs' (init h) = Some s \<and> sim rs s"
  using exec_re_sim[OF init_inv[OF assms(1,2)] sim_init[OF assms(2)] assms(3)] .

lemma once_when_quiet:
  assumes "wf_heap h" "fresh h" "exec_re n evs (init_re (embed h)) = Some rs" "t < length h"
  shows "length (calls_of_re rs t) \<le> 1"
proof -
  obtain evs' s where s: "exec evs' (init h) = Some s" "sim rs s"
    using embedded_sim[OF assms(1-3)] by blast
  have "node_ok s t" using reachable_inv(5)[OF assms(1,2) s(1) assms(4)] .
  then have "length (calls_of s t) \<le> 1" using node_ok_calls by fastforce
  then show ?thesis using sim_calls[OF s(2)] unfolding calls_of_re_def calls_of_def by simp
qed

lemma result_stays_when_quiet:
  assumes "wf_heap h" "fresh h" "exec_re n evs (init_re (embed h)) = Some rs" "t < length h"
    and r: "r_result (rheap rs ! t) = Some r" and ex: "exec_re m evs2 rs = Some rs2"
  shows "r_result (rheap rs2 ! t) = Some r \<and> calls_of_re rs2 t = calls_of_re rs t"
proof -
  obtain evs' s where s: "exec evs' (init h) = Some s" "sim rs s"
    using embedded_sim[OF assms(1-3)] by blast
  note R = reachable_inv[OF assms(1,2) s(1)]
  have t: "t < length (heap s)" using R(2) assms(4) by simp
  have tr: "task_result (heap s ! t) = Some r" using node_rel_fields(2)[OF sim_node[OF s(2) t]] r by simp
  obtain evs2' s2 where s2: "exec evs2' s = Some s2" "sim rs2 s2"
    using exec_re_sim[OF R(1) s(2) ex] by blast
  have E: "invariant s2" "extends s s2" using exec_inv[OF R(1) s2(1)] by simp_all
  have t2: "t < length (heap s2)" using extends_length[OF E(2)] t by simp
  have "task_result (heap s2 ! t) = Some r" using extends_result[OF E(2) tr] .
  then have 1: "r_result (rheap rs2 ! t) = Some r"
    using node_rel_fields(2)[OF sim_node[OF s2(2) t2]] by simp
  have "calls_of s2 t = calls_of s t"
    using resolved_calls_stable[OF R(1) t outcome_result[OF tr] E(2) E(1)] .
  then have "calls_of_re rs2 t = calls_of_re rs t"
    using sim_calls[OF s(2)] sim_calls[OF s2(2)] unfolding calls_of_re_def calls_of_def by simp
  then show ?thesis using 1 by simp
qed

section \<open>The claims\<close>




text \<open>
  C2: the compute function of a node is to be invoked at most once, and the shared leaf
  of a diamond exactly once during a single run of the top node. run.ts does not keep to
  this when a compute function calls \<open>run\<close> on its own node before its first \<open>await\<close>:
  \<open>_promise\<close> is assigned when \<open>executeTask\<close> has returned (line 37), after the compute
  of a leaf has been invoked (line 53), so the call made in between passes both fast
  paths and starts a second execution. In the diamond whose leaf \<open>a\<close> calls \<open>run(a)\<close> on
  its first invocation, the single call \<open>run(d)\<close> invokes the compute of \<open>a\<close> twice.
\<close>

theorem reentrant_compute_invoked_twice:
  "exec_re 4 [Call 3] (init_re reentrant_diamond) \<noteq> None \<and>
   r_deps (reentrant_diamond ! 3) = [1, 2] \<and> r_deps (reentrant_diamond ! 1) = [0] \<and>
   r_deps (reentrant_diamond ! 2) = [0] \<and> r_deps (reentrant_diamond ! 0) = [] \<and>
   calls_of_re (final_re [Call 3] reentrant_diamond) 0 = [(0, []), (0, [])] \<and>
   length (calls_of_re (final_re [Call 3] reentrant_diamond) 0) = 2"
  by (simp add: eval_re_defs eval_nat_numeral)

text \<open>
  C3: once the first run of a node has settled as an Err, every later call of \<open>run\<close> on
  it is to return that same Err, and the compute is not to be invoked again. run.ts does
  not keep to this when the compute function calls \<open>run\<close> on its own node before its
  first \<open>await\<close>: the node then has two executions, each with a \<open>run\<close> activation that
  writes \<open>_result\<close> (line 41). On the leaf \<open>a\<close> that calls \<open>run(a)\<close> and fails on its first
  invocation, and succeeds on its second: the caller's \<open>run(a)\<close> settles as
  \<open>Err ''first''\<close>, which is cached and returned by the next call; when the other
  execution succeeds, \<open>_result\<close> is overwritten, and the call after that returns \<open>Ok 5\<close>.
  The compute has been invoked twice.
\<close>

theorem reentrant_cached_err_overwritten:
  "exec_re 4 succeeds_later (init_re relapsing_leaf) \<noteq> None \<and>
   value_of (final_re fails_first relapsing_leaf) (Inflight 1) = Some (Err ''first'' 0) \<and>
   r_result (rheap (final_re fails_first relapsing_leaf) ! 0) = Some (Err ''first'' 0) \<and>
   map_option fst (run_re 4 0 (final_re fails_first relapsing_leaf)) =
     Some (Cached (Err ''first'' 0)) \<and>
   r_result (rheap (final_re succeeds_later relapsing_leaf) ! 0) = Some (Ok (Atom 5)) \<and>
   map_option fst (run_re 4 0 (final_re succeeds_later relapsing_leaf)) =
     Some (Cached (Ok (Atom 5))) \<and>
   calls_of_re (final_re succeeds_later relapsing_leaf) 0 = [(0, []), (0, [])]"
  by (simp add: eval_re_defs eval_nat_numeral)



text \<open>
  C5: whenever a node's compute is invoked, its arguments are the values its dependencies
  resolved with, in the order of the node's \<open>deps\<close> list; once the dependencies of a
  node \<open>t\<close> have all succeeded, with values \<open>vs\<close> in the order of \<open>deps\<close>, whatever
  \<open>run(t)\<close> returns is what \<open>t\<close>'s compute returns on \<open>vs\<close>, and \<open>t\<close> can be run to that
  settled result, its compute invoked once, with \<open>vs\<close>; and for a node \<open>t\<close> built by
  \<open>all(l, ts)\<close>, whose dependencies are \<open>ts\<close>, that result is \<open>Ok\<close> of the tuple \<open>vs\<close>.
\<close>

theorem dependency_order_preserved:
  assumes "wf_heap h" "fresh h" "exec evs (init h) = Some s"
  shows "(\<forall>t args. t < length h \<and> (t, args) \<in> set (calls s) \<longrightarrow>
            map (outcome s) (deps (h ! t)) = map (\<lambda>v. Some (Ok v)) args) \<and>
         (\<forall>t vs. t < length h \<and> map (outcome s) (deps (h ! t)) = map (\<lambda>v. Some (Ok v)) vs \<longrightarrow>
            (\<forall>r. outcome s t = Some r \<longrightarrow> r = compute (h ! t) vs) \<and>
            (\<exists>evs' s'. exec evs' s = Some s' \<and>
               task_result (heap s' ! t) = Some (compute (h ! t) vs) \<and>
               calls_of s' t = [(t, vs)])) \<and>
         (\<forall>l ts h0 t vs. t = fst (all l ts h0) \<and> t < length h \<and> h ! t = snd (all l ts h0) ! t \<and>
            map (outcome s) ts = map (\<lambda>v. Some (Ok v)) vs \<longrightarrow>
            (\<forall>r. outcome s t = Some r \<longrightarrow> r = Ok (Tuple vs)) \<and>
            (\<exists>evs' s'. exec evs' s = Some s' \<and> task_result (heap s' ! t) = Some (Ok (Tuple vs))))"
proof -
  note R = reachable_inv[OF assms]
  have args: "map (outcome s) (deps (h ! t)) = map (\<lambda>v. Some (Ok v)) args"
    if a: "t < length h" "(t, args) \<in> set (calls s)" for t args
  proof -
    have "(t, args) \<in> set (calls_of s t)" using a(2) unfolding calls_of_def by simp
    then have "calls_of s t = [(t, args)]" using node_ok_calls[OF R(5)[OF a(1)]] by auto
    then have "deps_resolved s t args" using node_ok_called[OF R(5)[OF a(1)]] by simp
    then show ?thesis unfolding deps_resolved_def using R(3)[OF a(1)] by simp
  qed
  have result: "(\<forall>r. outcome s t = Some r \<longrightarrow> r = compute (h ! t) vs) \<and>
            (\<exists>evs' s'. exec evs' s = Some s' \<and>
               task_result (heap s' ! t) = Some (compute (h ! t) vs) \<and> calls_of s' t = [(t, vs)])"
    if a: "t < length h" "map (outcome s) (deps (h ! t)) = map (\<lambda>v. Some (Ok v)) vs" for t vs
  proof -
    have dr: "deps_resolved s t vs" unfolding deps_resolved_def using a(2) R(3)[OF a(1)] by simp
    have 1: "\<forall>r. outcome s t = Some r \<longrightarrow> r = compute (h ! t) vs"
      using deps_resolved_result(1)[OF R(5)[OF a(1)] dr] R(4)[OF a(1)] by simp
    have tl': "t < length (heap s)" using a(1) R(2) by simp
    obtain evs' s' where e: "exec evs' s = Some s'" "task_result (heap s' ! t) \<noteq> None"
      using can_settle[OF R(1) tl'] by blast
    have E: "invariant s'" "extends s s'" using exec_inv[OF R(1) e(1)] by simp_all
    obtain r where r: "task_result (heap s' ! t) = Some r" using e(2) by auto
    have tl'': "t < length (heap s')" using extends_length[OF E(2)] tl' by simp
    have n': "node_ok s' t" using E(1) tl'' unfolding invariant_def by simp
    have cp': "compute (heap s' ! t) = compute (h ! t)"
      using graph_of_nth(2)[OF extends_graph[OF E(2)] tl'] R(4)[OF a(1)] by simp
    note D = deps_resolved_result[OF n' extends_deps_resolved[OF E(2) tl' dr] outcome_result[OF r]]
    have "exec evs' s = Some s' \<and> task_result (heap s' ! t) = Some (compute (h ! t) vs) \<and>
        calls_of s' t = [(t, vs)]"
      using e(1) r D cp' by simp
    then have "\<exists>evs' s'. exec evs' s = Some s' \<and>
        task_result (heap s' ! t) = Some (compute (h ! t) vs) \<and> calls_of s' t = [(t, vs)]"
      by (intro exI)
    then show ?thesis using 1 by simp
  qed
  have tuple: "(\<forall>r. outcome s t = Some r \<longrightarrow> r = Ok (Tuple vs)) \<and>
            (\<exists>evs' s'. exec evs' s = Some s' \<and> task_result (heap s' ! t) = Some (Ok (Tuple vs)))"
    if a: "t = fst (all l ts h0)" "t < length h" "h ! t = snd (all l ts h0) ! t"
      "map (outcome s) ts = map (\<lambda>v. Some (Ok v)) vs"
    for l ts h0 t vs
  proof -
    have t: "t = length h0" using a(1) all_node(1) by simp
    have dp: "deps (h ! t) = ts" using a(3) all_node(3)[of l ts h0] t by simp
    have cp: "compute (h ! t) vs = Ok (Tuple vs)" using a(3) all_node(4)[of l ts h0] t by simp
    have "(\<forall>r. outcome s t = Some r \<longrightarrow> r = compute (h ! t) vs) \<and>
            (\<exists>evs' s'. exec evs' s = Some s' \<and>
               task_result (heap s' ! t) = Some (compute (h ! t) vs) \<and> calls_of s' t = [(t, vs)])"
      using result[OF a(2)] a(4) dp by simp
    then show ?thesis unfolding cp by blast
  qed
  show ?thesis using args result tuple by blast
qed

theorem dependency_order_preserved_witness:
  "wf_heap diamond_all \<and> fresh diamond_all \<and> exec all_schedule (init diamond_all) \<noteq> None \<and>
   (2, [Atom 10]) \<in> set (calls (final all_schedule diamond_all)) \<and>
   map (outcome (final all_schedule diamond_all)) (deps (diamond_all ! 2)) = [Some (Ok (Atom 10))] \<and>
   fst (all ''both'' [1, 2] diamond) = 4 \<and> diamond_all ! 4 = snd (all ''both'' [1, 2] diamond) ! 4 \<and>
   map (outcome (final all_schedule diamond_all)) [1, 2] = [Some (Ok (Atom 20)), Some (Ok (Atom 30))] \<and>
   (\<exists>evs' s'. exec evs' (final all_schedule diamond_all) = Some s' \<and>
      task_result (heap s' ! 4) = Some (Ok (Tuple [Atom 20, Atom 30])))"
proof -
  have f: "(2, [Atom 10]) \<in> set (calls (final all_schedule diamond_all))"
    "2 < length diamond_all"
    "map (outcome (final all_schedule diamond_all)) [1, 2] =
       map (\<lambda>v. Some (Ok v)) [Atom 20, Atom 30]"
    "4 = fst (all ''both'' [1, 2] diamond)" "4 < length diamond_all"
    by (simp_all add: eval_defs eval_nat_numeral)
  have g: "diamond_all ! 4 = snd (all ''both'' [1, 2] diamond) ! 4" unfolding diamond_all_def by simp
  note T = dependency_order_preserved[OF wf_diamond_all fresh_diamond_all exec_final[OF all_schedule_run]]
  have 1: "map (outcome (final all_schedule diamond_all)) (deps (diamond_all ! 2)) =
      map (\<lambda>v. Some (Ok v)) [Atom 10]"
    using T f(1,2) by blast
  have "4 = fst (all ''both'' [1, 2] diamond) \<and> 4 < length diamond_all \<and>
      diamond_all ! 4 = snd (all ''both'' [1, 2] diamond) ! 4 \<and>
      map (outcome (final all_schedule diamond_all)) [1, 2] = map (\<lambda>v. Some (Ok v)) [Atom 20, Atom 30]"
    using f(3,4,5) g by simp
  then have 2: "\<exists>evs' s'. exec evs' (final all_schedule diamond_all) = Some s' \<and>
      task_result (heap s' ! 4) = Some (Ok (Tuple [Atom 20, Atom 30]))"
    using T by blast
  show ?thesis
    using 1 2 f(1,3,4) g wf_diamond_all fresh_diamond_all all_schedule_run by simp
qed

text \<open>
  C6 as amended: the \<open>err\<close> helper that the wrapper installed by \<open>task\<close> hands to a node's
  compute is bound to that node: called on a payload it returns the Err naming the node
  under construction, so a compute whose errors name the node its helper is bound to
  blames its own node only.
\<close>

theorem helper_err_blames_own_node:
  "fst (task l ds c h) = length h \<and>
   compute (snd (task l ds c h) ! fst (task l ds c h)) vs =
     c \<lparr>h_ok = ok, h_err = err (fst (task l ds c h))\<rparr> vs \<and>
   h_err \<lparr>h_ok = ok, h_err = err (fst (task l ds c h)) :: 'e \<Rightarrow> ('a, 'e) result\<rparr> e =
     Err e (fst (task l ds c h)) \<and>
   (uses_helper c \<longrightarrow>
      (\<forall>e' t'. compute (snd (task l ds c h) ! fst (task l ds c h)) vs = Err e' t' \<longrightarrow>
         t' = fst (task l ds c h)))"
proof -
  have 1: "fst (task l ds c h) = length h" unfolding task_def by (simp add: Let_def)
  have 2: "compute (snd (task l ds c h) ! fst (task l ds c h)) vs =
     c \<lparr>h_ok = ok, h_err = err (fst (task l ds c h))\<rparr> vs"
    unfolding task_def by (simp add: Let_def)
  have 3: "h_err \<lparr>h_ok = ok, h_err = err (fst (task l ds c h)) :: 'e \<Rightarrow> ('a, 'e) result\<rparr> e =
     Err e (fst (task l ds c h))"
    unfolding err_def by simp
  have 4: "uses_helper c \<longrightarrow>
      (\<forall>e' t'. compute (snd (task l ds c h) ! fst (task l ds c h)) vs = Err e' t' \<longrightarrow>
         t' = fst (task l ds c h))"
    unfolding 2 uses_helper_def by blast
  show ?thesis using 1 2 3 4 by simp
qed

theorem helper_err_blames_own_node_witness:
  "uses_helper (leaf_err ''A'') \<and>
   compute (snd (task ''a'' [] (leaf_err ''A'') []) ! fst (task ''a'' [] (leaf_err ''A'') [])) [] =
     Err ''A'' 0 \<and>
   (0::nat) = fst (task ''a'' [] (leaf_err ''A'') ([] :: (nat, string) task list))"
proof -
  have c: "compute (snd (task ''a'' [] (leaf_err ''A'') []) ! fst (task ''a'' [] (leaf_err ''A'') [])) []
      = (Err ''A'' 0 :: (nat, string) result)"
    by (simp add: eval_defs)
  note T = helper_err_blames_own_node[of "''a''" "[]" "leaf_err ''A''" "[]" "[]" "''A''"]
  have "(0::nat) = fst (task ''a'' [] (leaf_err ''A'') ([] :: (nat, string) task list))"
    using T c uses_helper_examples(2) by blast
  then show ?thesis using c uses_helper_examples(2) by simp
qed

text \<open>
  The claim C6 as stated fails: \<open>err\<close> is exported, and the compute of the accuser calls it
  on the innocent node 0; \<open>run\<close> on the accuser returns an Err that blames node 0, whose
  compute was never invoked.
\<close>

theorem helper_err_counterexample:
  "(err 0 ''blamed'' :: (nat, string) result) = Err ''blamed'' 0 \<and>
   exec accuse (init blaming) \<noteq> None \<and>
   task_result (heap (final accuse blaming) ! 1) = Some (Err ''blamed'' 0) \<and>
   calls (final accuse blaming) = [(1, [])]"
  by (simp add: eval_defs eval_nat_numeral)

text \<open>
  C7: on an acyclic graph (a heap built by \<open>task\<close>), \<open>getTrace(t)\<close> returns the labels of a
  list \<open>ns\<close> of nodes, one entry per node, in which no node occurs twice (nor any identity
  token), which holds exactly the nodes reachable from \<open>t\<close>, in which every node comes
  after all of its dependencies, and whose last node is \<open>t\<close>.
\<close>

theorem getTrace_topological:
  assumes "wf_heap h" "t < length h"
  shows "\<exists>ns. getTrace h t = Some (map (\<lambda>n. label (h ! n)) ns) \<and> distinct ns \<and>
           distinct (map (\<lambda>n. task_id (h ! n)) ns) \<and>
           set ns = {a. reaches h t a} \<and>
           (\<forall>i < length ns. \<forall>d \<in> set (deps (h ! (ns ! i))). \<exists>j < i. ns ! j = d) \<and>
           ns \<noteq> [] \<and> last ns = t"
proof -
  have v0: "visit_ok h (Suc t) {} []" unfolding visit_ok_def topo_def by simp
  obtain ms where m: "traverse (length h) h t ({}, labels_of h []) =
      Some ({} \<union> set ms, labels_of h ([] @ ms))"
    "visit_ok h (Suc t) ({} \<union> set ms) ([] @ ms)"
    "set ([] @ ms) = set [] \<union> {a. reaches h t a}"
    "t \<notin> {} \<longrightarrow> ms \<noteq> [] \<and> last ms = t"
    using traverse_visits[OF assms(1) assms(2) assms(2) v0] by blast
  have g: "getTrace h t = Some (map (\<lambda>n. label (h ! n)) ms)"
    using m(1) unfolding getTrace_def labels_of_def by simp
  have d: "distinct ms" and tp: "topo h ms" using m(2) unfolding visit_ok_def by simp_all
  have inr: "\<forall>x \<in> set ms. x < length h"
  proof
    fix x assume "x \<in> set ms"
    then have "reaches h t x" using m(3) by simp
    then show "x < length h" using reaches_le[OF assms(1) _ assms(2)] assms(2) by fastforce
  qed
  have "map (\<lambda>n. task_id (h ! n)) ms = ms"
  proof (rule map_idI)
    fix x assume "x \<in> set ms"
    then show "task_id (h ! x) = x" using inr assms(1) unfolding wf_heap_def by simp
  qed
  then have d2: "distinct (map (\<lambda>n. task_id (h ! n)) ms)" using d by simp
  have o: "\<forall>i < length ms. \<forall>d \<in> set (deps (h ! (ms ! i))). \<exists>j < i. ms ! j = d"
  proof (intro allI impI ballI)
    fix i d assume i: "i < length ms" and dd: "d \<in> set (deps (h ! (ms ! i)))"
    then have "d \<in> set (take i ms)" using tp unfolding topo_def by blast
    then obtain j where "j < length (take i ms)" "take i ms ! j = d" by (auto simp: in_set_conv_nth)
    then have "j < i \<and> ms ! j = d" using i by simp
    then show "\<exists>j < i. ms ! j = d" by blast
  qed
  have "getTrace h t = Some (map (\<lambda>n. label (h ! n)) ms) \<and> distinct ms \<and>
           distinct (map (\<lambda>n. task_id (h ! n)) ms) \<and>
           set ms = {a. reaches h t a} \<and>
           (\<forall>i < length ms. \<forall>d \<in> set (deps (h ! (ms ! i))). \<exists>j < i. ms ! j = d) \<and>
           ms \<noteq> [] \<and> last ms = t"
    using g d d2 m(3,4) o by simp
  then show ?thesis by (intro exI)
qed

theorem getTrace_topological_witness:
  "wf_heap diamond \<and> 3 < length diamond \<and> getTrace diamond 3 = Some [''a'', ''b'', ''c'', ''d''] \<and>
   (\<exists>ns. Some [''a'', ''b'', ''c'', ''d''] = Some (map (\<lambda>n. label (diamond ! n)) ns) \<and> distinct ns \<and>
      set ns = {a. reaches diamond 3 a} \<and> last ns = 3)"
proof -
  have l: "3 < length diamond" and g: "getTrace diamond 3 = Some [''a'', ''b'', ''c'', ''d'']"
    by (simp_all add: eval_defs getTrace_def eval_nat_numeral)
  obtain ns where "getTrace diamond 3 = Some (map (\<lambda>n. label (diamond ! n)) ns)" "distinct ns"
    "set ns = {a. reaches diamond 3 a}" "last ns = 3"
    using getTrace_topological[OF wf_diamond l] by blast
  then have "Some [''a'', ''b'', ''c'', ''d''] = Some (map (\<lambda>n. label (diamond ! n)) ns) \<and> distinct ns \<and>
      set ns = {a. reaches diamond 3 a} \<and> last ns = 3"
    using g by simp
  then have "\<exists>ns. Some [''a'', ''b'', ''c'', ''d''] = Some (map (\<lambda>n. label (diamond ! n)) ns) \<and> distinct ns \<and>
      set ns = {a. reaches diamond 3 a} \<and> last ns = 3"
    by (intro exI)
  then show ?thesis using wf_diamond l g by simp
qed

text \<open>
  C8: when \<open>run\<close> on a node returns an Err that came from one of its dependencies, the
  node's \<open>_result\<close> is written with that Err, and the node is to stay settled as failed:
  later calls return that Err, and its compute is never invoked. run.ts does not keep to
  the second part when the compute function of a dependency calls \<open>run\<close> on the node
  before its first \<open>await\<close>: node and dependency then have two executions each. On the
  task \<open>d\<close> whose dependency \<open>a\<close> calls \<open>run(d)\<close> and fails on its first invocation, and
  succeeds on its second: the caller's \<open>run(d)\<close> returns the \<open>Err ''first''\<close> of \<open>a\<close>,
  which is written to \<open>_result\<close> of \<open>d\<close> with no compute of \<open>d\<close> invoked; when the other
  execution of \<open>a\<close> succeeds, the other execution of \<open>d\<close> invokes the compute of \<open>d\<close>
  and overwrites \<open>_result\<close>, and the next call \<open>run(d)\<close> returns \<open>Ok 10\<close>.
\<close>

theorem reentrant_forwarded_err_overwritten:
  "exec_re 4 computes_later (init_re relapsing_pair) \<noteq> None \<and>
   r_deps (relapsing_pair ! 1) = [0] \<and>
   value_of (final_re forwards_first relapsing_pair) (Inflight 3) = Some (Err ''first'' 0) \<and>
   r_result (rheap (final_re forwards_first relapsing_pair) ! 1) = Some (Err ''first'' 0) \<and>
   map_option fst (run_re 4 1 (final_re forwards_first relapsing_pair)) =
     Some (Cached (Err ''first'' 0)) \<and>
   calls_of_re (final_re forwards_first relapsing_pair) 1 = [] \<and>
   r_result (rheap (final_re computes_later relapsing_pair) ! 1) = Some (Ok (Atom 10)) \<and>
   map_option fst (run_re 4 1 (final_re computes_later relapsing_pair)) =
     Some (Cached (Ok (Atom 10))) \<and>
   calls_of_re (final_re computes_later relapsing_pair) 1 = [(1, [Atom 5])]"
  by (simp add: eval_re_defs eval_nat_numeral)

text \<open>
  C9: for every label \<open>l\<close>, the node \<open>t\<close> built by \<open>all(l, [])\<close> has no dependencies; in
  every schedule, whatever \<open>run(t)\<close> returns is \<open>Ok\<close> of the empty tuple and \<open>t\<close>'s compute
  is invoked with no arguments, at most once; when \<open>t\<close> has not been started, a call of
  \<open>run(t)\<close> followed by the completion of its compute and the resumption of \<open>run\<close> invokes
  the compute once, with no arguments, and settles \<open>t\<close> as \<open>Ok\<close> of the empty tuple; and \<open>t\<close>
  can always be run to that settled result.
\<close>

theorem all_of_no_tasks:
  assumes "wf_heap h" "fresh h" "exec evs (init h) = Some s"
    and "t = fst (all l [] h0)" "t < length h" "h ! t = snd (all l [] h0) ! t"
  shows "deps (h ! t) = [] \<and>
         (\<forall>r. outcome s t = Some r \<longrightarrow> r = Ok (Tuple [])) \<and>
         (calls_of s t = [] \<or> calls_of s t = [(t, [])]) \<and>
         (task_promise (heap s ! t) = None \<longrightarrow>
            (\<exists>s'. exec [Run t, ComputeDone t, Settle t] s = Some s' \<and>
               task_result (heap s' ! t) = Some (Ok (Tuple [])) \<and> calls s' = calls s @ [(t, [])])) \<and>
         (\<exists>evs' s'. exec evs' s = Some s' \<and> task_result (heap s' ! t) = Some (Ok (Tuple [])))"
proof -
  note R = reachable_inv[OF assms(1-3)]
  have t: "t = length h0" using assms(4) all_node(1) by simp
  have tl: "t < length (heap s)" using assms(5) R(2) by simp
  have dp: "deps (h ! t) = []" using assms(6) all_node(3)[of l "[]" h0] t by simp
  have dps: "deps (heap s ! t) = []" using R(3)[OF assms(5)] dp by simp
  have cps: "\<And>vs. compute (heap s ! t) vs = Ok (Tuple vs)"
    using R(4)[OF assms(5)] assms(6) all_node(4)[of l "[]" h0] t by simp
  have dr: "deps_resolved s t []" unfolding deps_resolved_def dps by simp
  note n = R(5)[OF assms(5)]
  have 1: "\<forall>r. outcome s t = Some r \<longrightarrow> r = Ok (Tuple [])"
    using all_outcome[OF n cps dr] by simp
  have 2: "calls_of s t = [] \<or> calls_of s t = [(t, [])]"
  proof (cases "calls_of s t = []")
    case False
    then obtain args where a: "calls_of s t = [(t, args)]" using node_ok_calls[OF n] by auto
    then have "args = []" using node_ok_called[OF n a] deps_resolved_Nil[OF dps] by simp
    then show ?thesis using a by simp
  qed simp
  have 3: "\<exists>s'. exec [Run t, ComputeDone t, Settle t] s = Some s' \<and>
               task_result (heap s' ! t) = Some (Ok (Tuple [])) \<and> calls s' = calls s @ [(t, [])]"
    if un: "task_promise (heap s ! t) = None"
  proof -
    have ur: "task_result (heap s ! t) = None" using node_ok_unstarted(1)[OF n un] .
    obtain k where k: "length (heap s) = Suc k" using tl by (cases "length (heap s)") auto
    let ?s1 = "s\<lparr>frames := (frames s)(t \<mapsto> AwaitCompute []), calls := calls s @ [(t, [])],
        heap := (heap s)[t := (heap s ! t)\<lparr>task_promise := Some Pending\<rparr>],
        awaiting := insert t (awaiting s)\<rparr>"
    have "executeTask_sync (run_sync k) t s =
        Some (Pending, s\<lparr>frames := (frames s)(t \<mapsto> AwaitCompute []), calls := calls s @ [(t, [])]\<rparr>)"
      unfolding executeTask_sync_def using dps by simp
    then have "run_sync (Suc k) t s = Some ?s1" using tl un ur by simp
    then have s1: "step (Run t) s = Some ?s1" using k by simp
    let ?s2 = "resolve t (Ok (Tuple [])) ?s1"
    have s2: "step (ComputeDone t) ?s1 = Some ?s2" using cps tl by simp
    let ?s3 = "?s2\<lparr>heap := (heap ?s2)[t := (heap ?s2 ! t)\<lparr>task_result := Some (Ok (Tuple []))\<rparr>],
        awaiting := awaiting ?s2 - {t}\<rparr>"
    have s3: "step (Settle t) ?s2 = Some ?s3" using tl unfolding resolve_def by simp
    have "exec [Run t, ComputeDone t, Settle t] s = Some ?s3" using s1 s2 s3 by simp
    moreover have "task_result (heap ?s3 ! t) = Some (Ok (Tuple []))"
      using tl unfolding resolve_def by simp
    moreover have "calls ?s3 = calls s @ [(t, [])]" unfolding resolve_def by simp
    ultimately show ?thesis by blast
  qed
  have 4: "\<exists>evs' s'. exec evs' s = Some s' \<and> task_result (heap s' ! t) = Some (Ok (Tuple []))"
  proof -
    obtain evs' s' where e: "exec evs' s = Some s'" "task_result (heap s' ! t) \<noteq> None"
      using can_settle[OF R(1) tl] by blast
    have E: "invariant s'" "extends s s'" using exec_inv[OF R(1) e(1)] by simp_all
    obtain r where r: "task_result (heap s' ! t) = Some r" using e(2) by auto
    have tl'': "t < length (heap s')" using extends_length[OF E(2)] tl by simp
    have n': "node_ok s' t" using E(1) tl'' unfolding invariant_def by simp
    have cp': "\<And>xs. compute (heap s' ! t) xs = Ok (Tuple xs)"
      using graph_of_nth(2)[OF extends_graph[OF E(2)] tl] cps by simp
    have "r = Ok (Tuple [])"
      using all_outcome[OF n' cp' extends_deps_resolved[OF E(2) tl dr] outcome_result[OF r]] .
    then have "exec evs' s = Some s' \<and> task_result (heap s' ! t) = Some (Ok (Tuple []))"
      using e(1) r by simp
    then show ?thesis by (intro exI)
  qed
  show ?thesis using dp 1 2 3 4 by blast
qed

theorem all_of_no_tasks_witness:
  "wf_heap empty_all \<and> fresh empty_all \<and> exec [] (init empty_all) = Some (init empty_all) \<and>
   4 = fst (all ''nothing'' [] diamond) \<and> 4 < length empty_all \<and>
   empty_all ! 4 = snd (all ''nothing'' [] diamond) ! 4 \<and>
   task_promise (heap (init empty_all) ! 4) = None \<and>
   (\<exists>s'. exec [Run 4, ComputeDone 4, Settle 4] (init empty_all) = Some s' \<and>
      task_result (heap s' ! 4) = Some (Ok (Tuple [])) \<and> calls s' = [(4, [])])"
proof -
  have w: "wf_heap empty_all" unfolding empty_all_def all_def
    by (intro wf_heap_task wf_diamond) simp
  have fr: "fresh empty_all" unfolding empty_all_def all_def by (intro fresh_task fresh_diamond)
  have e: "exec [] (init empty_all) = Some (init empty_all)" by simp
  have f: "4 = fst (all ''nothing'' [] diamond)" "4 < length empty_all"
    "task_promise (heap (init empty_all) ! 4) = None" "calls (init empty_all) = []"
    by (simp_all add: eval_defs)
  have g: "empty_all ! 4 = snd (all ''nothing'' [] diamond) ! 4" unfolding empty_all_def by simp
  obtain s' where s': "exec [Run 4, ComputeDone 4, Settle 4] (init empty_all) = Some s'"
    "task_result (heap s' ! 4) = Some (Ok (Tuple []))" "calls s' = calls (init empty_all) @ [(4, [])]"
    using all_of_no_tasks[OF w fr e f(1,2) g] f(3) by blast
  have "calls s' = [(4, [])]" using s'(3) f(4) by simp
  then have x: "\<exists>s'. exec [Run 4, ComputeDone 4, Settle 4] (init empty_all) = Some s' \<and>
      task_result (heap s' ! 4) = Some (Ok (Tuple [])) \<and> calls s' = [(4, [])]"
    using s'(1,2) by blast
  show ?thesis using w fr e f(1,2,3) g x by (intro conjI)
qed

text \<open>
  C10 as amended: when \<open>run(t)\<close> is called on a node that has not been started (no cached
  result, no promise in flight) and dependencies of \<open>t\<close> are already settled as Err, the
  call resolves with the Err of the earliest of them in \<open>t\<close>'s declaration order.
\<close>

theorem earliest_cached_error_wins:
  assumes "t < length (heap s)"
    and "task_result (heap s ! t) = None" "task_promise (heap s ! t) = None"
    and "i < length (deps (heap s ! t))"
    and "task_result (heap s ! (deps (heap s ! t) ! i)) = Some (Err e a)"
    and "\<forall>j < i. \<forall>e' a'. task_result (heap s ! (deps (heap s ! t) ! j)) \<noteq> Some (Err e' a')"
  shows "\<exists>s'. step (Run t) s = Some s' \<and> outcome s' t = Some (Err e a) \<and> calls s' = calls s"
proof -
  have f: "first_cached_err (heap s) (deps (heap s ! t)) = Some (Err e a)"
    using first_cached_err_earliest[OF assms(4,5,6)] .
  have ne: "deps (heap s ! t) \<noteq> []" using assms(4) by auto
  show ?thesis
    using run_short_circuit[OF assms(1,2,3) f ne] outcome_set_promise[OF assms(1,2)] by simp
qed

theorem earliest_cached_error_wins_witness:
  "exec both_leaves_fail (init two_failures) \<noteq> None \<and>
   2 < length (heap (final both_leaves_fail two_failures)) \<and>
   task_result (heap (final both_leaves_fail two_failures) ! 2) = None \<and>
   task_promise (heap (final both_leaves_fail two_failures) ! 2) = None \<and>
   deps (heap (final both_leaves_fail two_failures) ! 2) = [0, 1] \<and>
   task_result (heap (final both_leaves_fail two_failures) ! 0) = Some (Err ''A'' 0) \<and>
   task_result (heap (final both_leaves_fail two_failures) ! 1) = Some (Err ''B'' 1) \<and>
   (\<exists>s'. step (Run 2) (final both_leaves_fail two_failures) = Some s' \<and>
      outcome s' 2 = Some (Err ''A'' 0) \<and> calls s' = calls (final both_leaves_fail two_failures))"
proof -
  have f: "2 < length (heap (final both_leaves_fail two_failures))"
    "task_result (heap (final both_leaves_fail two_failures) ! 2) = None"
    "task_promise (heap (final both_leaves_fail two_failures) ! 2) = None"
    "deps (heap (final both_leaves_fail two_failures) ! 2) = [0, 1]"
    "task_result (heap (final both_leaves_fail two_failures) ! 0) = Some (Err ''A'' 0)"
    "task_result (heap (final both_leaves_fail two_failures) ! 1) = Some (Err ''B'' 1)"
    by (simp_all add: eval_defs eval_nat_numeral)
  have i: "0 < length (deps (heap (final both_leaves_fail two_failures) ! 2))" using f(4) by simp
  have e: "task_result (heap (final both_leaves_fail two_failures) !
      (deps (heap (final both_leaves_fail two_failures) ! 2) ! 0)) = Some (Err ''A'' 0)"
    using f(4,5) by simp
  have "\<exists>s'. step (Run 2) (final both_leaves_fail two_failures) = Some s' \<and>
      outcome s' 2 = Some (Err ''A'' 0) \<and> calls s' = calls (final both_leaves_fail two_failures)"
    using earliest_cached_error_wins[OF f(1,2,3) i e] by simp
  then show ?thesis using f both_leaves_fail_run by simp
qed

text \<open>
  The claim C10 as stated fails on \<open>two_failures\<close>: both dependencies of \<open>d\<close>, declared in
  the order \<open>[a, b]\<close>, are settled as Err when \<open>run(d)\<close> is called, and the call returns the
  cached Err of \<open>d\<close>, which is that of \<open>b\<close>.
\<close>

theorem earliest_cached_error_counterexample:
  "exec fast_wins_settled (init two_failures) \<noteq> None \<and>
   deps (heap (final fast_wins_settled two_failures) ! 2) = [0, 1] \<and>
   task_result (heap (final fast_wins_settled two_failures) ! 0) = Some (Err ''A'' 0) \<and>
   task_result (heap (final fast_wins_settled two_failures) ! 1) = Some (Err ''B'' 1) \<and>
   step (Run 2) (final fast_wins_settled two_failures) = Some (final fast_wins_settled two_failures) \<and>
   outcome (final fast_wins_settled two_failures) 2 = Some (Err ''B'' 1)"
proof -
  have f: "deps (heap (final fast_wins_settled two_failures) ! 2) = [0, 1]"
    "task_result (heap (final fast_wins_settled two_failures) ! 0) = Some (Err ''A'' 0)"
    "task_result (heap (final fast_wins_settled two_failures) ! 1) = Some (Err ''B'' 1)"
    "outcome (final fast_wins_settled two_failures) 2 = Some (Err ''B'' 1)"
    "task_result (heap (final fast_wins_settled two_failures) ! 2) \<noteq> None"
    "2 < length (heap (final fast_wins_settled two_failures))"
    by (simp_all add: eval_defs eval_nat_numeral)
  have "step (Run 2) (final fast_wins_settled two_failures) = Some (final fast_wins_settled two_failures)"
    using run_settled[OF f(6)] f(5) by simp
  then show ?thesis using f fast_wins_settled_run by simp
qed

end
